theory Spec2Isabelle
  imports Main "HOL-Library.Sublist"
begin

section \<open>JavaScript strings\<close>

text \<open>
  A JavaScript string is a sequence of UTF-16 code units; \<open>length\<close>, \<open>substring\<close>,
  \<open>lastIndexOf\<close> and the regular expressions of the component (none has the \<open>u\<close> flag) all
  count and match code units. A code unit is modelled by its number, so that the CJK
  sentence marks and the Unicode white space of \<open>\s\<close> and \<open>trim\<close> are single elements.
\<close>

type_synonym jschar = nat
type_synonym jsstr = "jschar list"

abbreviation (input) js :: "string \<Rightarrow> jsstr" where
  "js s \<equiv> map of_char s"

text \<open>The set matched by \<open>\s\<close>, which is also the set stripped by \<open>String.prototype.trim\<close>.\<close>

definition isWs :: "jschar \<Rightarrow> bool" where
  "isWs c \<longleftrightarrow> c = 9 \<or> c = 10 \<or> c = 11 \<or> c = 12 \<or> c = 13 \<or> c = 32 \<or> c = 160 \<or> c = 5760
     \<or> (8192 \<le> c \<and> c \<le> 8202) \<or> c = 8232 \<or> c = 8233 \<or> c = 8239 \<or> c = 8287
     \<or> c = 12288 \<or> c = 65279"

definition isDigit :: "jschar \<Rightarrow> bool" where
  "isDigit c \<longleftrightarrow> 48 \<le> c \<and> c \<le> 57"

text \<open>The set matched by \<open>\w\<close>: \<open>[A-Za-z0-9_]\<close>.\<close>

definition isWord :: "jschar \<Rightarrow> bool" where
  "isWord c \<longleftrightarrow> (65 \<le> c \<and> c \<le> 90) \<or> (97 \<le> c \<and> c \<le> 122) \<or> isDigit c \<or> c = 95"

text \<open>
  \<open>toLowerCase\<close> is applied by the component to tag names matched by \<open>\w+\<close> only; on these
  it maps \<open>A..Z\<close> to \<open>a..z\<close>. The \<open>i\<close> flag of a regular expression without the \<open>u\<close> flag
  never identifies a code unit above 127 with an ASCII letter, so that matching an ASCII
  pattern ignoring case is comparing after \<open>lowerChar\<close>.
\<close>

definition lowerChar :: "jschar \<Rightarrow> jschar" where
  "lowerChar c = (if 65 \<le> c \<and> c \<le> 90 then c + 32 else c)"

definition toLowerCase :: "jsstr \<Rightarrow> jsstr" where
  "toLowerCase s = map lowerChar s"

definition dropWsEnd :: "jsstr \<Rightarrow> jsstr" where
  "dropWsEnd s = rev (dropWhile isWs (rev s))"

definition trim :: "jsstr \<Rightarrow> jsstr" where
  "trim s = dropWsEnd (dropWhile isWs s)"

text \<open>
  \<open>s.substring(a, b)\<close>: both arguments are clamped to \<open>0..length\<close> and swapped when the
  first is the larger. \<open>s.substring(a)\<close> runs to the end of the string.
\<close>

definition clampIdx :: "jsstr \<Rightarrow> int \<Rightarrow> nat" where
  "clampIdx s a = min (nat a) (length s)"

definition substring :: "jsstr \<Rightarrow> int \<Rightarrow> int \<Rightarrow> jsstr" where
  "substring s a b =
     (let lo = min (clampIdx s a) (clampIdx s b); hi = max (clampIdx s a) (clampIdx s b)
      in take (hi - lo) (drop lo s))"

definition substringFrom :: "jsstr \<Rightarrow> int \<Rightarrow> jsstr" where
  "substringFrom s a = drop (clampIdx s a) s"

text \<open>\<open>s.split('\n')\<close>: the pieces between line feeds; a final line feed gives a last empty piece.\<close>

fun splitNl :: "jsstr \<Rightarrow> jsstr list" where
  "splitNl [] = [[]]"
| "splitNl (c # cs) =
     (if c = 10 then [] # splitNl cs
      else (case splitNl cs of [] \<Rightarrow> [[c]] | l # ls \<Rightarrow> (c # l) # ls))"

text \<open>\<open>s.lastIndexOf('\n')\<close>: the greatest index holding a line feed, \<open>-1\<close> when there is none.\<close>

fun lastIndexOfNl :: "jsstr \<Rightarrow> int" where
  "lastIndexOfNl [] = -1"
| "lastIndexOfNl (c # cs) =
     (let r = lastIndexOfNl cs in if 0 \<le> r then r + 1 else if c = 10 then 0 else -1)"

section \<open>Boundary detection on the markdown source\<close>

text \<open>
  The line patterns of the detector.
  \<^item> \<open>/^(\s*)(```|~~~)/\<close>: white space, then three backticks or three tildes; the result
    is the marker (group 2).
  \<^item> \<open>/^#{1,6}\s+/\<close>: one to six hashes followed by white space.
  \<^item> \<open>/^(\s*)([-*+]|\d+\.)\s+/\<close>: white space, a bullet or digits and a dot, then white
    space; the result is the length of the indentation (group 1).
\<close>

definition fenceMatch :: "jsstr \<Rightarrow> jsstr option" where
  "fenceMatch line =
     (let r = dropWhile isWs line
      in if take 3 r = js ''```'' then Some (js ''```'')
         else if take 3 r = js ''~~~'' then Some (js ''~~~'')
         else None)"

definition headingMatch :: "jsstr \<Rightarrow> bool" where
  "headingMatch line =
     (let n = length (takeWhile (\<lambda>c. c = 35) line)
      in 1 \<le> n \<and> n \<le> 6 \<and> (case drop n line of [] \<Rightarrow> False | c # _ \<Rightarrow> isWs c))"

definition listMatch :: "jsstr \<Rightarrow> nat option" where
  "listMatch line =
     (let indent = length (takeWhile isWs line); r = dropWhile isWs line
      in case r of
           [] \<Rightarrow> None
         | c # cs \<Rightarrow>
             if c = 45 \<or> c = 42 \<or> c = 43
             then (case cs of [] \<Rightarrow> None | d # _ \<Rightarrow> if isWs d then Some indent else None)
             else if isDigit c
             then (case dropWhile isDigit cs of
                     d # e # _ \<Rightarrow> if d = 46 \<and> isWs e then Some indent else None
                   | _ \<Rightarrow> None)
             else None)"

record scanState =
  currentIndex :: int
  inCodeBlock :: bool
  codeBlockFence :: jsstr
  inList :: bool
  listIndent :: int
  lastNonEmptyLineIndex :: int

definition initScan :: scanState where
  "initScan = \<lparr>currentIndex = 0, inCodeBlock = False, codeBlockFence = [], inList = False,
     listIndent = -1, lastNonEmptyLineIndex = -1\<rparr>"

text \<open>
  Each of the four line handlers of the source mutates the scan state and the list of
  boundaries and returns a flag; here it returns the flag (where the source has one), the new
  state and the new boundaries.
\<close>

definition processCodeBlock ::
  "jsstr \<Rightarrow> int \<Rightarrow> int \<Rightarrow> scanState \<Rightarrow> int list \<Rightarrow> bool \<times> scanState \<times> int list" where
  "processCodeBlock line lineIndex lineEndIndex st bs =
     (case fenceMatch line of
        None \<Rightarrow> (False, st, bs)
      | Some fence \<Rightarrow>
          if \<not> inCodeBlock st
          then (False,
                st\<lparr>inCodeBlock := True, codeBlockFence := fence\<rparr>,
                if 0 \<le> lastNonEmptyLineIndex st \<and> lastNonEmptyLineIndex st < lineIndex - 1
                then bs @ [currentIndex st - 1] else bs)
          else if fence = codeBlockFence st
          then (True,
                st\<lparr>inCodeBlock := False, codeBlockFence := [], lastNonEmptyLineIndex := lineIndex\<rparr>,
                bs @ [lineEndIndex])
          else (False, st, bs))"

definition processHeading ::
  "jsstr \<Rightarrow> int \<Rightarrow> int \<Rightarrow> int \<Rightarrow> scanState \<Rightarrow> int list \<Rightarrow> bool \<times> scanState \<times> int list" where
  "processHeading line lineIndex lineStartIndex lineEndIndex st bs =
     (if \<not> headingMatch line \<or> inList st then (False, st, bs)
      else (True,
            st\<lparr>lastNonEmptyLineIndex := lineIndex\<rparr>,
            (if 0 \<le> lastNonEmptyLineIndex st \<and> lastNonEmptyLineIndex st < lineIndex - 1
             then bs @ [lineStartIndex - 1] else bs) @ [lineEndIndex]))"

definition processListItem ::
  "jsstr \<Rightarrow> int \<Rightarrow> bool \<Rightarrow> int \<Rightarrow> scanState \<Rightarrow> int list \<Rightarrow> bool \<times> scanState \<times> int list" where
  "processListItem line lineIndex isEmptyLine lineStartIndex st bs =
     (if isEmptyLine then (False, st, bs)
      else case listMatch line of
        None \<Rightarrow> (False, st, bs)
      | Some indent \<Rightarrow>
          if \<not> inList st \<or> int indent < listIndent st
          then (True,
                st\<lparr>inList := True, listIndent := int indent, lastNonEmptyLineIndex := lineIndex\<rparr>,
                if inList st \<and> 0 \<le> lastNonEmptyLineIndex st then bs @ [lineStartIndex - 1] else bs)
          else (True, st\<lparr>lastNonEmptyLineIndex := lineIndex\<rparr>, bs))"

text \<open>
  \<open>processEmptyLine\<close> looks at the line after the current one; \<open>rest\<close> is the list of the lines
  after the current one, so that \<open>lineIndex < lines.length - 1\<close> is \<open>rest \<noteq> []\<close> and
  \<open>lines[lineIndex + 1]\<close> is its head.
\<close>

definition processEmptyLine ::
  "int \<Rightarrow> bool \<Rightarrow> jsstr list \<Rightarrow> int \<Rightarrow> scanState \<Rightarrow> int list \<Rightarrow> scanState \<times> int list" where
  "processEmptyLine lineIndex isEmptyLine rest lineStartIndex st bs =
     (if \<not> isEmptyLine
      then (if \<not> inList st then st\<lparr>lastNonEmptyLineIndex := lineIndex\<rparr> else st, bs)
      else
        (let bs' = (if 0 \<le> lastNonEmptyLineIndex st \<and> lastNonEmptyLineIndex st < lineIndex - 1
                    then bs @ [lineStartIndex - 1] else bs);
             st' = (if inList st
                    then (case rest of
                            [] \<Rightarrow> st\<lparr>inList := False, listIndent := -1\<rparr>
                          | nextLine # _ \<Rightarrow>
                              (case listMatch nextLine of
                                 None \<Rightarrow> st\<lparr>inList := False, listIndent := -1\<rparr>
                               | Some nextIndent \<Rightarrow>
                                   if int nextIndent < listIndent st
                                   then st\<lparr>inList := False, listIndent := -1\<rparr> else st))
                    else st)
         in (st', bs')))"

text \<open>One pass of the body of the \<open>for\<close> loop of \<open>detectBlockBoundaries\<close>, for the line \<open>line\<close>
  of index \<open>i\<close>, followed by the lines \<open>rest\<close>.\<close>

definition processLine ::
  "jsstr \<Rightarrow> jsstr list \<Rightarrow> int \<Rightarrow> scanState \<Rightarrow> int list \<Rightarrow> scanState \<times> int list" where
  "processLine line rest i st bs =
     (let lineStartIndex = currentIndex st;
          lineEndIndex = currentIndex st + int (length line);
          isEmptyLine = (trim line = []);
          (r1, st1, bs1) = processCodeBlock line i lineEndIndex st bs
      in if r1 then (st1\<lparr>currentIndex := lineEndIndex + 1\<rparr>, bs1)
         else if inCodeBlock st1 then (st1\<lparr>currentIndex := lineEndIndex + 1\<rparr>, bs1)
         else
           (let (r2, st2, bs2) = processHeading line i lineStartIndex lineEndIndex st1 bs1
            in if r2 then (st2\<lparr>currentIndex := lineEndIndex + 1\<rparr>, bs2)
               else
                 (let (r3, st3, bs3) = processListItem line i isEmptyLine lineStartIndex st2 bs2
                  in if r3 then (st3\<lparr>currentIndex := lineEndIndex + 1\<rparr>, bs3)
                     else
                       (let (st4, bs4) = processEmptyLine i isEmptyLine rest lineStartIndex st3 bs3
                        in (st4\<lparr>currentIndex := lineEndIndex + 1\<rparr>, bs4)))))"

fun scanLines :: "jsstr list \<Rightarrow> int \<Rightarrow> scanState \<Rightarrow> int list \<Rightarrow> scanState \<times> int list" where
  "scanLines [] i st bs = (st, bs)"
| "scanLines (line # rest) i st bs =
     (case processLine line rest i st bs of (st', bs') \<Rightarrow> scanLines rest (i + 1) st' bs')"

definition detectBlockBoundaries :: "jsstr \<Rightarrow> int list" where
  "detectBlockBoundaries markdown = snd (scanLines (splitNl markdown) 0 initScan [])"

section \<open>Patterns on HTML text\<close>

text \<open>
  The regular expressions of the merge engine and of the splitter are built from a few
  shapes, each written here as a function on the text at the position where the match is
  tried. \<open>ci\<close> says whether the expression has the \<open>i\<close> flag.
\<close>

definition startsWith :: "bool \<Rightarrow> jsstr \<Rightarrow> jsstr \<Rightarrow> bool" where
  "startsWith ci p s =
     (if ci then map lowerChar (take (length p) s) = p else take (length p) s = p)"

text \<open>An unanchored expression matches when it matches at some position of the text.\<close>

fun anywhere :: "(jsstr \<Rightarrow> bool) \<Rightarrow> jsstr \<Rightarrow> bool" where
  "anywhere P [] = P []"
| "anywhere P (c # cs) = (P (c # cs) \<or> anywhere P cs)"

text \<open>
  \<open>(?:\s[^>]*)?>\<close>, what follows the name in an opening tag: either \<open>></ \<close> at once, or a
  white space and then any text up to the first \<open>></ \<close>.
\<close>

definition tagRest :: "jsstr \<Rightarrow> bool" where
  "tagRest r = (case r of [] \<Rightarrow> False | c # r' \<Rightarrow> c = 62 \<or> (isWs c \<and> 62 \<in> set r'))"

text \<open>\<open>^<NAME(?:\s[^>]*)?>\<close> for one of the given names.\<close>

definition openTagAt :: "bool \<Rightarrow> jsstr list \<Rightarrow> jsstr \<Rightarrow> bool" where
  "openTagAt ci names s =
     (\<exists>name \<in> set names. startsWith ci (60 # name) s \<and> tagRest (drop (Suc (length name)) s))"

text \<open>\<open><\/NAME>\<close> at a position, and \<open><\/NAME>\s*$\<close> on the whole text.\<close>

definition closeTagAt :: "bool \<Rightarrow> jsstr list \<Rightarrow> jsstr \<Rightarrow> bool" where
  "closeTagAt ci names s = (\<exists>name \<in> set names. startsWith ci (js ''</'' @ name @ js ''>'') s)"

definition closeTagAtEnd :: "bool \<Rightarrow> jsstr list \<Rightarrow> jsstr \<Rightarrow> bool" where
  "closeTagAtEnd ci names s =
     (\<exists>name \<in> set names.
        startsWith ci (rev (js ''</'' @ name @ js ''>'')) (rev (dropWsEnd s)))"

text \<open>
  \<open>s.replace(/<\/NAME>\s*$/, '')\<close>: the closing tag has no white space in it, so the only
  match is the closing tag that ends the text, with the white space after it.
\<close>

definition stripCloseEnd :: "bool \<Rightarrow> jsstr \<Rightarrow> jsstr \<Rightarrow> jsstr" where
  "stripCloseEnd ci name s =
     (if closeTagAtEnd ci [name] s then take (length (dropWsEnd s) - (length name + 3)) s else s)"

text \<open>\<open>s.replace(/^<NAME[^>]*>/, '')\<close>: the text from \<open><NAME\<close> to the first \<open>></ \<close> is removed.\<close>

definition stripOpenStart :: "bool \<Rightarrow> jsstr \<Rightarrow> jsstr \<Rightarrow> jsstr" where
  "stripOpenStart ci name s =
     (let r = drop (Suc (length name)) s
      in if startsWith ci (60 # name) s \<and> 62 \<in> set r
         then tl (dropWhile (\<lambda>c. c \<noteq> 62) r) else s)"

text \<open>
  \<open>s.replace(/<[^>]+>/g, '')\<close>: scanning from the left, a \<open><\<close> followed by at least one
  code unit other than \<open>></ \<close> and then a \<open>></ \<close> is removed up to that \<open>></ \<close>.
\<close>

function stripTags :: "jsstr \<Rightarrow> jsstr" where
  "stripTags [] = []"
| "stripTags (c # cs) =
     (if c = 60 \<and> takeWhile (\<lambda>x. x \<noteq> 62) cs \<noteq> [] \<and> 62 \<in> set cs
      then stripTags (tl (dropWhile (\<lambda>x. x \<noteq> 62) cs))
      else c # stripTags cs)"
  by pat_completeness auto
termination
  by (relation "measure length")
     (auto simp: less_Suc_eq_le le_trans [OF diff_le_self length_dropWhile_le])

text \<open>The first position of a match of \<open><\/NAME>\<close>, if any.\<close>

fun findClose :: "bool \<Rightarrow> jsstr \<Rightarrow> jsstr \<Rightarrow> nat option" where
  "findClose ci name [] = None"
| "findClose ci name (c # cs) =
     (if closeTagAt ci [name] (c # cs) then Some 0
      else map_option Suc (findClose ci name cs))"

text \<open>
  \<open><NAME[^>]*>[\s\S]*?<\/NAME>\<close> tried at the start of the text: the length of the match.
  The opening part runs to the first \<open>></ \<close>, the lazy middle part to the first closing tag
  after it.
\<close>

definition elementAt :: "bool \<Rightarrow> jsstr \<Rightarrow> jsstr \<Rightarrow> nat option" where
  "elementAt ci name s =
     (let r = drop (Suc (length name)) s
      in if startsWith ci (60 # name) s \<and> 62 \<in> set r
         then (case findClose ci name (tl (dropWhile (\<lambda>c. c \<noteq> 62) r)) of
                 None \<Rightarrow> None
               | Some k \<Rightarrow>
                   Some (Suc (length name) + Suc (length (takeWhile (\<lambda>c. c \<noteq> 62) r)) + k
                         + (length name + 3)))
         else None)"

text \<open>\<open>s.match(/<NAME[^>]*>[\s\S]*?<\/NAME>/gi) || []\<close>: all the matches, from the left,
  each search starting where the last match ended.\<close>

function matchElements :: "bool \<Rightarrow> jsstr \<Rightarrow> jsstr \<Rightarrow> jsstr list" where
  "matchElements ci name [] = []"
| "matchElements ci name (c # cs) =
     (case elementAt ci name (c # cs) of
        None \<Rightarrow> matchElements ci name cs
      | Some n \<Rightarrow> take n (c # cs) # matchElements ci name (drop (n - 1) cs))"
  by pat_completeness auto
termination
  by (relation "measure (\<lambda>(ci, name, s). length s)") auto

text \<open>\<open>s.replace(/<\/[uo]l>/gi, '')\<close> and \<open>s.replace(/<table>/g, '<table class="markdown-table">')\<close>.\<close>

fun removeListCloses :: "jsstr \<Rightarrow> jsstr" where
  "removeListCloses [] = []"
| "removeListCloses (c # cs) =
     (if closeTagAt True [js ''ul'', js ''ol''] (c # cs) then removeListCloses (drop 4 cs)
      else c # removeListCloses cs)"

fun addTableClass :: "jsstr \<Rightarrow> jsstr" where
  "addTableClass [] = []"
| "addTableClass (c # cs) =
     (if startsWith False (js ''<table>'') (c # cs)
      then js ''<table class=\"markdown-table\">'' @ addTableClass (drop 6 cs)
      else c # addTableClass cs)"

section \<open>The merge engine\<close>

record renderBlock =
  id_blk :: jsstr
  html :: jsstr

text \<open>Every predicate starts with \<open>if (!html) return false\<close>: the empty string is falsy.\<close>

definition isParagraphBlock :: "jsstr \<Rightarrow> bool" where
  "isParagraphBlock h =
     (h \<noteq> [] \<and> openTagAt False [js ''p''] (trim h) \<and> closeTagAtEnd False [js ''p''] (trim h))"

text \<open>\<open>/[\<dots>.!?]\s*$/\<close> with the three CJK marks U+3002, U+FF01, U+FF1F: a mark, then white
  space to the end of the text.\<close>

definition sentenceMarks :: "jschar list" where
  "sentenceMarks = [12290, 65281, 65311, 46, 33, 63]"

definition endsWithMark :: "jsstr \<Rightarrow> bool" where
  "endsWithMark t = (case rev (dropWsEnd t) of [] \<Rightarrow> False | c # _ \<Rightarrow> c \<in> set sentenceMarks)"

definition isParagraphComplete :: "jsstr \<Rightarrow> bool" where
  "isParagraphComplete h =
     (h \<noteq> [] \<and> (endsWithMark (trim (stripTags h)) \<or> anywhere (startsWith False (js ''<img'')) h))"

definition isIncompleteList :: "jsstr \<Rightarrow> bool" where
  "isIncompleteList h =
     (h \<noteq> [] \<and> anywhere (openTagAt True [js ''ul'', js ''ol'']) (trim h)
      \<and> \<not> anywhere (closeTagAt True [js ''ul'', js ''ol'']) (trim h))"

definition isListItemBlock :: "jsstr \<Rightarrow> bool" where
  "isListItemBlock h =
     (h \<noteq> [] \<and> openTagAt False [js ''li''] (trim h) \<and> closeTagAtEnd False [js ''li''] (trim h))"

definition isListBlock :: "jsstr \<Rightarrow> bool" where
  "isListBlock h =
     (h \<noteq> [] \<and> openTagAt True [js ''ul'', js ''ol''] (trim h)
      \<and> closeTagAtEnd True [js ''ul'', js ''ol''] (trim h))"

definition isIncompleteTable :: "jsstr \<Rightarrow> bool" where
  "isIncompleteTable h =
     (h \<noteq> [] \<and> anywhere (openTagAt True [js ''table'']) (trim h)
      \<and> \<not> anywhere (closeTagAt True [js ''table'']) (trim h))"

definition isTableRowBlock :: "jsstr \<Rightarrow> bool" where
  "isTableRowBlock h =
     (h \<noteq> [] \<and> openTagAt False [js ''tr''] (trim h) \<and> closeTagAtEnd False [js ''tr''] (trim h))"

definition isTableBlock :: "jsstr \<Rightarrow> bool" where
  "isTableBlock h =
     (h \<noteq> [] \<and> openTagAt True [js ''table''] (trim h) \<and> closeTagAtEnd True [js ''table''] (trim h))"

definition isIncompleteBlockquote :: "jsstr \<Rightarrow> bool" where
  "isIncompleteBlockquote h =
     (h \<noteq> [] \<and> anywhere (openTagAt True [js ''blockquote'']) (trim h)
      \<and> \<not> anywhere (closeTagAt True [js ''blockquote'']) (trim h))"

definition isBlockquoteContent :: "jsstr \<Rightarrow> bool" where
  "isBlockquoteContent h =
     (h \<noteq> [] \<and> openTagAt True
        [js ''p'', js ''h1'', js ''h2'', js ''h3'', js ''h4'', js ''h5'', js ''h6'',
         js ''ul'', js ''ol'', js ''blockquote''] (trim h))"

text \<open>\<open>/<img[\s\S]*?>/i\<close>: \<open><img\<close> in any case, with a \<open>></ \<close> somewhere after it.\<close>

definition containsImage :: "jsstr \<Rightarrow> bool" where
  "containsImage h =
     (h \<noteq> [] \<and> anywhere (\<lambda>s. startsWith True (js ''<img'') s \<and> 62 \<in> set (drop 4 s)) h)"

definition shouldMergeBlocks :: "jsstr \<Rightarrow> jsstr \<Rightarrow> bool" where
  "shouldMergeBlocks lastBlockHtml currentBlockHtml =
     (if lastBlockHtml = [] \<or> currentBlockHtml = [] then False
      else if isParagraphBlock lastBlockHtml \<and> isParagraphBlock currentBlockHtml
      then \<not> isParagraphComplete lastBlockHtml
      else if isIncompleteList lastBlockHtml
      then isListItemBlock currentBlockHtml \<or> isListBlock currentBlockHtml
           \<or> isParagraphBlock currentBlockHtml
      else if isIncompleteTable lastBlockHtml
      then isTableRowBlock currentBlockHtml \<or> isTableBlock currentBlockHtml
      else if isIncompleteBlockquote lastBlockHtml
      then isBlockquoteContent currentBlockHtml
      else False)"

text \<open>
  \<open>lastHtml.match(/<([uo]l)(?:\s[^>]*)?>/i)\<close>: group 1 of the first match, in lower case;
  the source takes \<open>'ul'\<close> when there is no match, and any type other than \<open>'ul'\<close> as
  \<open>'ol'\<close>.
\<close>

fun firstListType :: "jsstr \<Rightarrow> jsstr option" where
  "firstListType [] = None"
| "firstListType (c # cs) =
     (if openTagAt True [js ''ul''] (c # cs) then Some (js ''ul'')
      else if openTagAt True [js ''ol''] (c # cs) then Some (js ''ol'')
      else firstListType cs)"

definition listTagOf :: "jsstr \<Rightarrow> jsstr" where
  "listTagOf lastHtml =
     (let listType = (case firstListType lastHtml of None \<Rightarrow> js ''ul'' | Some t \<Rightarrow> t)
      in if listType = js ''ul'' then js ''ul'' else js ''ol'')"

text \<open>
  \<open>mergeBlocks\<close> copies the last block and replaces the \<open>html\<close> of the copy; it returns
  \<open>undefined\<close> (here \<open>None\<close>) when none of its four rules applies.
\<close>

definition mergeBlocks :: "renderBlock \<Rightarrow> jsstr \<Rightarrow> renderBlock option" where
  "mergeBlocks lastBlock currentHtml =
     (let lastHtml = html lastBlock in
      if isParagraphBlock lastHtml \<and> isParagraphBlock currentHtml
      then Some (lastBlock\<lparr>html :=
             stripCloseEnd False (js ''p'') lastHtml
             @ stripCloseEnd False (js ''p'') (stripOpenStart False (js ''p'') currentHtml)
             @ js ''</p>''\<rparr>)
      else if isIncompleteList lastHtml
      then (let listTag = listTagOf lastHtml;
                lastContent = removeListCloses lastHtml
            in if isListItemBlock currentHtml
               then Some (lastBlock\<lparr>html := lastContent @ currentHtml @ js ''</'' @ listTag @ js ''>''\<rparr>)
               else if isListBlock currentHtml
               then Some (lastBlock\<lparr>html :=
                      lastContent @ concat (matchElements True (js ''li'') currentHtml)
                      @ js ''</'' @ listTag @ js ''>''\<rparr>)
               else if isParagraphBlock currentHtml
               then Some (lastBlock\<lparr>html :=
                      lastContent @ js ''<li>''
                      @ stripCloseEnd False (js ''p'') (stripOpenStart False (js ''p'') currentHtml)
                      @ js ''</li></'' @ listTag @ js ''>''\<rparr>)
               else Some lastBlock)
      else if isIncompleteTable lastHtml
      then (let lastContent = stripCloseEnd True (js ''table'') lastHtml
            in if isTableRowBlock currentHtml
               then Some (lastBlock\<lparr>html := lastContent @ currentHtml @ js ''</table>''\<rparr>)
               else if isTableBlock currentHtml
               then Some (lastBlock\<lparr>html :=
                      lastContent @ concat (matchElements True (js ''tr'') currentHtml)
                      @ js ''</table>''\<rparr>)
               else Some lastBlock)
      else if isIncompleteBlockquote lastHtml
      then Some (lastBlock\<lparr>html :=
             stripCloseEnd True (js ''blockquote'') lastHtml
             @ stripCloseEnd True (js ''blockquote'')
                 (stripOpenStart True (js ''blockquote'') currentHtml)
             @ js ''</blockquote>''\<rparr>)
      else None)"

section \<open>Splitting HTML into top-level blocks\<close>

record splitState =
  blocks :: "jsstr list"
  stack :: "(jsstr \<times> int) list"
  currentBlockStart :: int

definition topLevelBlockElements :: "jsstr list" where
  "topLevelBlockElements =
     [js ''p'', js ''h1'', js ''h2'', js ''h3'', js ''h4'', js ''h5'', js ''h6'',
      js ''ul'', js ''ol'', js ''blockquote'', js ''pre'', js ''table'', js ''hr'']"

definition isSelfClosingTag :: "jsstr \<Rightarrow> bool" where
  "isSelfClosingTag tagName =
     (toLowerCase tagName \<in> set [js ''img'', js ''br'', js ''hr'', js ''input''])"

text \<open>
  \<open>/^<(\w+)(?:\s[^>]*)?(?:\s*\/)?>/\<close> on the text from the current position: group 1 and the
  length of the match. After the name comes \<open>></ \<close>, or a white space and any text up to the
  first \<open>></ \<close>, or \<open>/></ \<close>.
\<close>

definition startTagMatch :: "jsstr \<Rightarrow> (jsstr \<times> nat) option" where
  "startTagMatch s =
     (case s of
        [] \<Rightarrow> None
      | c # r \<Rightarrow>
          if c \<noteq> 60 \<or> takeWhile isWord r = [] then None
          else
            (let name = takeWhile isWord r
             in case dropWhile isWord r of
                  [] \<Rightarrow> None
                | d # r2 \<Rightarrow>
                    if d = 62 then Some (name, length name + 2)
                    else if isWs d
                    then (if 62 \<in> set r2
                          then Some (name, length name + 3 + length (takeWhile (\<lambda>x. x \<noteq> 62) r2))
                          else None)
                    else if d = 47
                    then (case r2 of
                            [] \<Rightarrow> None
                          | e # _ \<Rightarrow> if e = 62 then Some (name, length name + 3) else None)
                    else None))"

text \<open>\<open>/^<\/(\w+)>/\<close>: group 1 and the length of the match.\<close>

definition closeTagMatch :: "jsstr \<Rightarrow> (jsstr \<times> nat) option" where
  "closeTagMatch s =
     (case s of
        c # d # r \<Rightarrow>
          if c = 60 \<and> d = 47 \<and> takeWhile isWord r \<noteq> []
             \<and> take 1 (dropWhile isWord r) = js ''>''
          then Some (takeWhile isWord r, length (takeWhile isWord r) + 3)
          else None
      | _ \<Rightarrow> None)"

text \<open>The block open before position \<open>i\<close>, if any, is pushed when its trimmed text is not empty.\<close>

definition pushPrevBlock :: "jsstr \<Rightarrow> nat \<Rightarrow> int \<Rightarrow> jsstr list \<Rightarrow> jsstr list" where
  "pushPrevBlock h i cbs bl =
     (if 0 \<le> cbs \<and> cbs < int i
      then (let prevBlock = trim (substring h cbs (int i))
            in if prevBlock \<noteq> [] then bl @ [prevBlock] else bl)
      else bl)"

text \<open>
  The handlers return the new \<open>currentBlockStart\<close> and the index where the scan goes on, and
  change the stack and the blocks.
\<close>

definition handleSelfClosingBlock ::
  "jsstr \<Rightarrow> nat \<Rightarrow> nat \<Rightarrow> splitState \<Rightarrow> (int \<times> nat) \<times> splitState" where
  "handleSelfClosingBlock h i matchLen st =
     (let bl = pushPrevBlock h i (currentBlockStart st) (blocks st);
          tagEnd = i + matchLen
      in ((-1, tagEnd), st\<lparr>blocks := bl @ [substring h (int i) (int tagEnd)]\<rparr>))"

definition handleNonSelfClosingBlock ::
  "jsstr \<Rightarrow> nat \<Rightarrow> jsstr \<Rightarrow> splitState \<Rightarrow> (int \<times> nat) \<times> splitState" where
  "handleNonSelfClosingBlock h i tagName st =
     (let bl = pushPrevBlock h i (currentBlockStart st) (blocks st)
      in ((int i, i + 1), st\<lparr>blocks := bl, stack := stack st @ [(tagName, int i)]\<rparr>))"

definition processStartTag ::
  "jsstr \<Rightarrow> nat \<Rightarrow> splitState \<Rightarrow> (int \<times> nat) option \<times> splitState" where
  "processStartTag h i st =
     (case startTagMatch (drop i h) of
        None \<Rightarrow> (None, st)
      | Some (name, matchLen) \<Rightarrow>
          (let tagName = toLowerCase name;
               isTopLevelBlock = (tagName \<in> set topLevelBlockElements);
               isSelfClosing = (take 2 (drop (matchLen - 2) (take matchLen (drop i h))) = js ''/>''
                                \<or> isSelfClosingTag tagName)
           in if \<not> isTopLevelBlock
              then (None, if stack st \<noteq> [] \<and> \<not> isSelfClosing
                          then st\<lparr>stack := stack st @ [(tagName, int i)]\<rparr> else st)
              else if isSelfClosing
              then (case handleSelfClosingBlock h i matchLen st of (r, st') \<Rightarrow> (Some r, st'))
              else (case handleNonSelfClosingBlock h i tagName st of (r, st') \<Rightarrow> (Some r, st'))))"

text \<open>
  \<open>processCloseTag\<close> looks from the top of the stack for the first entry with the name of the
  closing tag and cuts the stack there (\<open>stack.splice(j)\<close>); it returns the new
  \<open>currentBlockStart\<close> when a block was pushed.
\<close>

definition processCloseTag :: "jsstr \<Rightarrow> nat \<Rightarrow> splitState \<Rightarrow> int option \<times> splitState" where
  "processCloseTag h i st =
     (case closeTagMatch (drop i h) of
        None \<Rightarrow> (None, st)
      | Some (name, matchLen) \<Rightarrow>
          if stack st = [] then (None, st)
          else
            (let tagName = toLowerCase name;
                 above = length (takeWhile (\<lambda>e. fst e \<noteq> tagName) (rev (stack st)))
             in if above = length (stack st) then (None, st)
                else
                  (let stack' = take (length (stack st) - 1 - above) (stack st)
                   in if stack' = [] \<and> 0 \<le> currentBlockStart st
                         \<and> tagName \<in> set topLevelBlockElements
                      then (Some (-1),
                            st\<lparr>stack := stack',
                               blocks := blocks st
                                 @ [substring h (currentBlockStart st) (int (i + matchLen))]\<rparr>)
                      else (None, st\<lparr>stack := stack'\<rparr>))))"

text \<open>\<open>html[i]\<close> is \<open>undefined\<close> beyond the end of the string.\<close>

definition charAt :: "jsstr \<Rightarrow> nat \<Rightarrow> jschar option" where
  "charAt h i = (if i < length h then Some (h ! i) else None)"

text \<open>One pass of the body of the \<open>while\<close> loop: the new state and the new value of \<open>i\<close>.\<close>

definition splitStep :: "jsstr \<Rightarrow> nat \<Rightarrow> splitState \<Rightarrow> splitState \<times> nat" where
  "splitStep h i st =
     (if charAt h i = Some 60 \<and> charAt h (i + 1) \<noteq> Some 47 \<and> charAt h (i + 1) \<noteq> Some 33
      then (case processStartTag h i st of
              (Some (cbs, nextIndex), st') \<Rightarrow> (st'\<lparr>currentBlockStart := cbs\<rparr>, nextIndex)
            | (None, st') \<Rightarrow> (st', i + 1))
      else if charAt h i = Some 60 \<and> charAt h (i + 1) = Some 47
      then (case processCloseTag h i st of
              (Some cbs, st') \<Rightarrow> (st'\<lparr>currentBlockStart := cbs\<rparr>, i + 1)
            | (None, st') \<Rightarrow> (st', i + 1))
      else (st, i + 1))"

function splitLoop :: "jsstr \<Rightarrow> nat \<Rightarrow> splitState \<Rightarrow> splitState" where
  "splitLoop h i st =
     (if i < length h
      then (case splitStep h i st of (st', i') \<Rightarrow> splitLoop h i' st')
      else st)"
  by pat_completeness auto
termination
proof (relation "measure (\<lambda>(h, i, st). length h - i)")
  show "wf (measure (\<lambda>(h, i, st). length h - i))"
    by simp
next
  fix h :: jsstr and i :: nat and st st' :: splitState and i' :: nat
  assume less: "i < length h" and pair: "(st', i') = splitStep h i st"
  have "i < snd (splitStep h i st)"
    by (auto simp: splitStep_def processStartTag_def processCloseTag_def
          handleSelfClosingBlock_def handleNonSelfClosingBlock_def startTagMatch_def Let_def
          split: option.splits prod.splits list.splits if_splits)
  with pair have "i < i'"
    by (metis snd_conv)
  with less show "((h, i', st'), (h, i, st)) \<in> measure (\<lambda>(h, i, st). length h - i)"
    by simp
qed

declare splitLoop.simps [simp del]

definition processLastBlock :: "jsstr \<Rightarrow> int \<Rightarrow> jsstr list \<Rightarrow> jsstr list" where
  "processLastBlock h cbs bl =
     (if 0 \<le> cbs \<and> cbs < int (length h)
      then (let lastBlock = trim (substringFrom h cbs)
            in if lastBlock \<noteq> [] then bl @ [lastBlock] else bl)
      else if bl = [] then [h] else bl)"

definition initSplit :: splitState where
  "initSplit = \<lparr>blocks = [], stack = [], currentBlockStart = -1\<rparr>"

definition splitIntoCompleteBlocks :: "jsstr \<Rightarrow> jsstr list" where
  "splitIntoCompleteBlocks h =
     (if h = [] \<or> trim h = [] then []
      else (let st = splitLoop h 0 initSplit
            in processLastBlock h (currentBlockStart st) (blocks st)))"

section \<open>The component: render pipeline and stream accumulator\<close>

record component =
  renderBlocks :: "renderBlock list"
  processedLength :: nat
  blockCounter :: nat
  accumulatedMarkdown :: jsstr

definition initComponent :: component where
  "initComponent = \<lparr>renderBlocks = [], processedLength = 0, blockCounter = 0,
     accumulatedMarkdown = []\<rparr>"

text \<open>
  The two libraries the component calls are parameters of the model. Each call may throw,
  which is the value \<open>None\<close>: \<open>marked\<close> is the call of \<open>marked\<close> with the options of the
  source, \<open>sanitize\<close> the call of \<open>DOMPurify.sanitize\<close> with the allow-lists, and
  \<open>sanitizePlain\<close> the call of \<open>DOMPurify.sanitize\<close> with no configuration, in the
  \<open>catch\<close> block.
\<close>

record env =
  marked :: "jsstr \<Rightarrow> jsstr option"
  sanitize :: "jsstr \<Rightarrow> jsstr option"
  sanitizePlain :: "jsstr \<Rightarrow> jsstr option"

text \<open>
  A method either returns or throws; in both cases the fields of the component are as the
  method left them.
\<close>

datatype outcome = Returned component | Thrown component

fun stateOf :: "outcome \<Rightarrow> component" where
  "stateOf (Returned s) = s"
| "stateOf (Thrown s) = s"

fun andThen :: "outcome \<Rightarrow> (component \<Rightarrow> outcome) \<Rightarrow> outcome" where
  "andThen (Returned s) f = f s"
| "andThen (Thrown s) f = Thrown s"

text \<open>The decimal digits of a number, as the template literal \<open>`md-block-${n}`\<close> prints it.\<close>

fun decimal :: "nat \<Rightarrow> jsstr" where
  "decimal n = (if n < 10 then [48 + n] else decimal (n div 10) @ [48 + n mod 10])"

declare decimal.simps [simp del]

definition mdBlockId :: "nat \<Rightarrow> jsstr" where
  "mdBlockId n = js ''md-block-'' @ decimal n"

text \<open>\<open>this.renderBlocks.push({id: `md-block-${this.blockCounter++}`, html: h})\<close>.\<close>

definition pushBlock :: "component \<Rightarrow> jsstr \<Rightarrow> component" where
  "pushBlock s h =
     s\<lparr>renderBlocks := renderBlocks s @ [\<lparr>id_blk = mdBlockId (blockCounter s), html = h\<rparr>],
       blockCounter := blockCounter s + 1\<rparr>"

text \<open>The body of \<open>blocks.forEach\<close> in \<open>appendNewContent\<close>.\<close>

definition appendBlock :: "component \<Rightarrow> jsstr \<Rightarrow> component" where
  "appendBlock s blockHtml =
     (if trim blockHtml = [] then s
      else if renderBlocks s \<noteq> []
              \<and> shouldMergeBlocks (html (last (renderBlocks s))) blockHtml
      then (if containsImage (html (last (renderBlocks s)))
            then pushBlock s blockHtml
            else (case mergeBlocks (last (renderBlocks s)) blockHtml of
                    Some mergedBlock \<Rightarrow>
                      s\<lparr>renderBlocks := butlast (renderBlocks s) @ [mergedBlock]\<rparr>
                  | None \<Rightarrow> s))
      else pushBlock s blockHtml)"

text \<open>
  The \<open>catch\<close> block of \<open>appendNewContent\<close>: the counter is incremented when the identifier
  is built, before \<open>DOMPurify.sanitize(newPart)\<close> is called; when that call throws, the error
  leaves \<open>appendNewContent\<close>.
\<close>

definition appendFallback :: "env \<Rightarrow> jsstr \<Rightarrow> component \<Rightarrow> outcome" where
  "appendFallback e newPart s =
     (case sanitizePlain e newPart of
        None \<Rightarrow> Thrown (s\<lparr>blockCounter := blockCounter s + 1\<rparr>)
      | Some h \<Rightarrow> Returned (pushBlock s h))"

definition appendNewContent :: "env \<Rightarrow> jsstr \<Rightarrow> component \<Rightarrow> outcome" where
  "appendNewContent e newPart s =
     (case marked e newPart of
        None \<Rightarrow> appendFallback e newPart s
      | Some h \<Rightarrow>
          (case sanitize e h of
             None \<Rightarrow> appendFallback e newPart s
           | Some cleanHtml \<Rightarrow>
               Returned (foldl appendBlock s (splitIntoCompleteBlocks (addTableClass cleanHtml)))))"

text \<open>
  \<open>blockBoundaries.forEach\<close> in \<open>processAccumulatedContent\<close>; \<open>acc\<close> is
  \<open>this.accumulatedMarkdown\<close>, which the loop reads and does not change.
\<close>

fun flushChunks :: "env \<Rightarrow> jsstr \<Rightarrow> int list \<Rightarrow> int \<Rightarrow> component \<Rightarrow> outcome" where
  "flushChunks e acc [] lastIndex s = Returned s"
| "flushChunks e acc (boundaryIndex # bs) lastIndex s =
     (let blockMarkdown = substring acc lastIndex (boundaryIndex + 1)
      in andThen (if trim blockMarkdown \<noteq> [] then appendNewContent e blockMarkdown s
                  else Returned s)
           (flushChunks e acc bs (boundaryIndex + 1)))"

text \<open>The size-based fallback at the end of \<open>processAccumulatedContent\<close>.\<close>

definition overflowFlush :: "env \<Rightarrow> component \<Rightarrow> outcome" where
  "overflowFlush e s =
     (if 1000 < length (accumulatedMarkdown s)
      then (let lastNewline = lastIndexOfNl (accumulatedMarkdown s)
            in if 100 < lastNewline
               then andThen
                      (appendNewContent e (substring (accumulatedMarkdown s) 0 (lastNewline + 1)) s)
                      (\<lambda>s'. Returned (s'\<lparr>accumulatedMarkdown :=
                                 substringFrom (accumulatedMarkdown s') (lastNewline + 1)\<rparr>))
               else Returned s)
      else Returned s)"

definition processAccumulatedContent :: "env \<Rightarrow> component \<Rightarrow> outcome" where
  "processAccumulatedContent e s =
     (if accumulatedMarkdown s = [] then Returned s
      else
        (let blockBoundaries = detectBlockBoundaries (accumulatedMarkdown s)
         in andThen
              (if blockBoundaries \<noteq> []
               then andThen (flushChunks e (accumulatedMarkdown s) blockBoundaries 0 s)
                      (\<lambda>s'. Returned (s'\<lparr>accumulatedMarkdown :=
                                 substringFrom (accumulatedMarkdown s') (last blockBoundaries + 1)\<rparr>))
               else Returned s)
              (overflowFlush e)))"

definition resetComponent :: "component \<Rightarrow> component" where
  "resetComponent s =
     s\<lparr>renderBlocks := [], processedLength := 0, blockCounter := 0, accumulatedMarkdown := []\<rparr>"

text \<open>
  \<open>handleContentUpdate\<close>; the content is \<open>None\<close> when the property is \<open>undefined\<close> or
  \<open>null\<close>, which is falsy as the empty string is.
\<close>

definition handleContentUpdate :: "env \<Rightarrow> jsstr option \<Rightarrow> component \<Rightarrow> outcome" where
  "handleContentUpdate e newContent s =
     (case newContent of
        None \<Rightarrow> Returned (resetComponent s)
      | Some c \<Rightarrow>
          if c = [] then Returned (resetComponent s)
          else
            (let s1 = (if length c < processedLength s then resetComponent s else s);
                 newPart = substringFrom c (int (processedLength s1))
             in andThen
                  (if newPart \<noteq> []
                   then processAccumulatedContent e
                          (s1\<lparr>accumulatedMarkdown := accumulatedMarkdown s1 @ newPart\<rparr>)
                   else Returned s1)
                  (\<lambda>s2. Returned (s2\<lparr>processedLength := length c\<rparr>))))"

text \<open>The watcher of \<open>isCompleted\<close>.\<close>

definition handleCompleted :: "env \<Rightarrow> bool \<Rightarrow> component \<Rightarrow> outcome" where
  "handleCompleted e isCompleted s =
     (if isCompleted \<and> accumulatedMarkdown s \<noteq> []
      then andThen
             (if trim (accumulatedMarkdown s) \<noteq> []
              then appendNewContent e (accumulatedMarkdown s) s else Returned s)
             (\<lambda>s'. Returned (s'\<lparr>accumulatedMarkdown := []\<rparr>))
      else Returned s)"

section \<open>Notions used in the statements\<close>

text \<open>
  The changes that the render pipeline and the accumulator make to the component between
  two resets, one at a time: a block is pushed with the identifier of the counter; the
  \<open>html\<close> of the last block is replaced, when that block holds no image; the counter is
  incremented (the identifier built in a \<open>catch\<close> block whose sanitizer throws); the buffer
  or the processed length is assigned.
\<close>

inductive storeStep :: "component \<Rightarrow> component \<Rightarrow> bool" where
  push: "storeStep s (pushBlock s h)"
| rewrite: "renderBlocks s \<noteq> [] \<Longrightarrow> \<not> containsImage (html (last (renderBlocks s))) \<Longrightarrow>
     storeStep s (s\<lparr>renderBlocks :=
        butlast (renderBlocks s) @ [(last (renderBlocks s))\<lparr>html := h\<rparr>]\<rparr>)"
| bump: "storeStep s (s\<lparr>blockCounter := blockCounter s + 1\<rparr>)"
| buffer: "storeStep s (s\<lparr>accumulatedMarkdown := a\<rparr>)"
| cursor: "storeStep s (s\<lparr>processedLength := n\<rparr>)"

text \<open>
  The identifiers of the stored blocks are \<open>md-block-n\<close> for increasing numbers \<open>n\<close> below
  the counter. This holds of the initial component and is kept by every method.
\<close>

definition wellNumbered :: "component \<Rightarrow> bool" where
  "wellNumbered s \<longleftrightarrow>
     (\<exists>ns. map id_blk (renderBlocks s) = map mdBlockId ns \<and> sorted_wrt (<) ns
           \<and> (\<forall>n \<in> set ns. n < blockCounter s))"

text \<open>
  The two watchers of the component are its public interface: an event is a new value of
  \<open>content\<close> or of \<open>isCompleted\<close>. An update resets the component when the content is absent,
  empty or shorter than the length processed so far.
\<close>

datatype event = ContentUpdate "jsstr option" | Completed bool

fun fire :: "env \<Rightarrow> event \<Rightarrow> component \<Rightarrow> component" where
  "fire e (ContentUpdate newContent) s = stateOf (handleContentUpdate e newContent s)"
| "fire e (Completed isCompleted) s = stateOf (handleCompleted e isCompleted s)"

fun resets :: "event \<Rightarrow> component \<Rightarrow> bool" where
  "resets (ContentUpdate None) s = True"
| "resets (ContentUpdate (Some c)) s = (c = [] \<or> length c < processedLength s)"
| "resets (Completed isCompleted) s = False"

fun runEvents :: "env \<Rightarrow> event list \<Rightarrow> component \<Rightarrow> component" where
  "runEvents e [] s = s"
| "runEvents e (ev # evs) s = runEvents e evs (fire e ev s)"

fun noResetRun :: "env \<Rightarrow> event list \<Rightarrow> component \<Rightarrow> bool" where
  "noResetRun e [] s = True"
| "noResetRun e (ev # evs) s = (\<not> resets ev s \<and> noResetRun e evs (fire e ev s))"

text \<open>Successive calls of \<open>appendNewContent\<close>, whether they return or throw.\<close>

fun appendAll :: "env \<Rightarrow> jsstr list \<Rightarrow> component \<Rightarrow> component" where
  "appendAll e [] s = s"
| "appendAll e (c # cs) s = appendAll e cs (stateOf (appendNewContent e c s))"

text \<open>
  The states of the \<open>while\<close> loop of \<open>splitIntoCompleteBlocks\<close>: the state \<open>st\<close> is reached
  with the index \<open>i\<close> when the loop, started from the empty state at index 0, gets there.
\<close>

inductive splitReach :: "jsstr \<Rightarrow> nat \<Rightarrow> splitState \<Rightarrow> bool" for h :: jsstr where
  start: "splitReach h 0 initSplit"
| step: "splitReach h i st \<Longrightarrow> i < length h \<Longrightarrow> splitStep h i st = (st', i') \<Longrightarrow>
     splitReach h i' st'"


text \<open>
  A paragraph span: the opening tag \<open><p\<close>, attributes, \<open>></ \<close>, then the inner content and the
  closing tag. The attributes are empty or start with white space, and hold no \<open>></ \<close>.
\<close>

definition pSpan :: "jsstr \<Rightarrow> jsstr \<Rightarrow> jsstr" where
  "pSpan attrs inner = js ''<p'' @ attrs @ js ''>'' @ inner @ js ''</p>''"

definition attrsOk :: "jsstr \<Rightarrow> bool" where
  "attrsOk attrs \<longleftrightarrow> (attrs = [] \<or> isWs (hd attrs)) \<and> 62 \<notin> set attrs"

definition allWs :: "jsstr \<Rightarrow> bool" where
  "allWs w \<longleftrightarrow> list_all isWs w"

text \<open>
  The fences of a text, as \<open>processCodeBlock\<close> reads them: the lines are those of
  \<open>markdown.split('\n')\<close>, \<open>cur\<close> is the offset of the first code unit of the line, a line
  matching the fence expression opens a fence, and the next line on which the expression
  matches the same marker closes it. A span \<open>(a, b)\<close> runs from the offset of the first code
  unit of the opening line to the offset of the line feed that ends the closing line; a
  fence that is never closed runs to the end of the text. An offset is inside a fence when
  it is in a span and is not the line feed that ends the closing line.
\<close>

fun fenceSpans :: "jsstr list \<Rightarrow> int \<Rightarrow> (jsstr \<times> int) option \<Rightarrow> (int \<times> int) list" where
  "fenceSpans [] cur None = []"
| "fenceSpans [] cur (Some (m, a)) = [(a, cur)]"
| "fenceSpans (l # ls) cur None =
     (case fenceMatch l of
        Some m \<Rightarrow> fenceSpans ls (cur + int (length l) + 1) (Some (m, cur))
      | None \<Rightarrow> fenceSpans ls (cur + int (length l) + 1) None)"
| "fenceSpans (l # ls) cur (Some (m, a)) =
     (if fenceMatch l = Some m
      then (a, cur + int (length l)) # fenceSpans ls (cur + int (length l) + 1) None
      else fenceSpans ls (cur + int (length l) + 1) (Some (m, a)))"

definition insideFence :: "jsstr \<Rightarrow> int \<Rightarrow> bool" where
  "insideFence markdown off \<longleftrightarrow>
     list_ex (\<lambda>(a, b). a \<le> off \<and> off < b) (fenceSpans (splitNl markdown) 0 None)"

text \<open>The scan state of the detector agrees with the fence that is open, if any.\<close>

definition fenceAgree :: "scanState \<Rightarrow> (jsstr \<times> int) option \<Rightarrow> bool" where
  "fenceAgree st opened \<longleftrightarrow>
     (case opened of
        None \<Rightarrow> \<not> inCodeBlock st
      | Some (m, a) \<Rightarrow> inCodeBlock st \<and> codeBlockFence st = m \<and> a < currentIndex st)"

text \<open>
  What holds of the blocks of the splitter at position \<open>i\<close>: no block is empty or starts
  with white space, and a recorded block start is the position of a \<open><\<close> before \<open>i\<close>. The
  second predicate says that the loop has output or a block start to show.
\<close>

definition blocksStartClean :: "jsstr \<Rightarrow> nat \<Rightarrow> splitState \<Rightarrow> bool" where
  "blocksStartClean h i st \<longleftrightarrow>
     list_all (\<lambda>x. x \<noteq> [] \<and> \<not> isWs (hd x)) (blocks st)
     \<and> (if 0 \<le> currentBlockStart st
         then currentBlockStart st < int i \<and> nat (currentBlockStart st) < length h
              \<and> h ! nat (currentBlockStart st) = 60
         else True)"

definition someOutput :: "splitState \<Rightarrow> bool" where
  "someOutput st \<longleftrightarrow> blocks st \<noteq> [] \<or> 0 \<le> currentBlockStart st"

section \<open>Concrete collaborators and inputs\<close>

text \<open>
  A converter and a sanitizer that return their argument, a pair that always throws, and a
  converter that throws beside a sanitizer that returns its argument; they stand for the two
  libraries where a statement is run on a concrete input.
\<close>

definition echoEnv :: env where
  "echoEnv = \<lparr>marked = Some, sanitize = Some, sanitizePlain = Some\<rparr>"

definition throwingEnv :: env where
  "throwingEnv = \<lparr>marked = (\<lambda>_. None), sanitize = (\<lambda>_. None), sanitizePlain = (\<lambda>_. None)\<rparr>"

definition failingConverterEnv :: env where
  "failingConverterEnv = \<lparr>marked = (\<lambda>_. None), sanitize = Some, sanitizePlain = Some\<rparr>"



text \<open>
  Two long buffers: a paragraph of two lines, of 200 and 900 letters, and an open code fence
  whose body is a line of 1000 letters followed by the start of a second line.
\<close>

definition longParagraph :: jsstr where
  "longParagraph = (97 # replicate 199 97) @ 10 # 98 # replicate 899 98"

definition openFenceBuffer :: jsstr where
  "openFenceBuffer = (js ''```'' @ 10 # 97 # replicate 999 97) @ 10 # js ''b''"

text \<open>
  Two more long buffers: one line of 1200 letters with no line feed, and a first line of six
  code units followed by a line of 1200 letters, so that the only line feed is at offset 6.
\<close>

definition longLine :: jsstr where
  "longLine = 97 # replicate 1199 97"

definition lateBreakBuffer :: jsstr where
  "lateBreakBuffer = js ''Intro:'' @ 10 # 97 # replicate 1199 97"

text \<open>Two stores of one block: a paragraph with an image, and a paragraph of one letter.\<close>

definition imageStore :: component where
  "imageStore = \<lparr>renderBlocks = [\<lparr>id_blk = mdBlockId 0, html = js ''<p>Look<IMG src=x></p>''\<rparr>],
     processedLength = 0, blockCounter = 1, accumulatedMarkdown = []\<rparr>"

definition paragraphStore :: component where
  "paragraphStore = \<lparr>renderBlocks = [\<lparr>id_blk = mdBlockId 0, html = js ''<p>a</p>''\<rparr>],
     processedLength = 10, blockCounter = 1, accumulatedMarkdown = []\<rparr>"

definition helloStore :: component where
  "helloStore = \<lparr>renderBlocks = [\<lparr>id_blk = mdBlockId 0, html = js ''<p>Hello</p>''\<rparr>],
     processedLength = 0, blockCounter = 1, accumulatedMarkdown = []\<rparr>"

section \<open>Evaluation rules\<close>

lemmas string_defs = trim_def dropWsEnd_def isWs_def isDigit_def isWord_def substring_def
  substringFrom_def clampIdx_def lowerChar_def toLowerCase_def

lemmas detect_defs = detectBlockBoundaries_def processLine_def processCodeBlock_def
  processHeading_def processListItem_def processEmptyLine_def fenceMatch_def headingMatch_def
  listMatch_def initScan_def

lemmas html_defs = startsWith_def tagRest_def openTagAt_def closeTagAt_def closeTagAtEnd_def
  stripCloseEnd_def stripOpenStart_def elementAt_def

lemmas merge_defs = isParagraphBlock_def sentenceMarks_def endsWithMark_def
  isParagraphComplete_def isIncompleteList_def isListItemBlock_def isListBlock_def
  isIncompleteTable_def isTableRowBlock_def isTableBlock_def isIncompleteBlockquote_def
  isBlockquoteContent_def containsImage_def shouldMergeBlocks_def listTagOf_def mergeBlocks_def

lemmas split_defs = topLevelBlockElements_def isSelfClosingTag_def startTagMatch_def
  closeTagMatch_def pushPrevBlock_def handleSelfClosingBlock_def handleNonSelfClosingBlock_def
  processStartTag_def processCloseTag_def charAt_def splitStep_def splitLoop.simps
  processLastBlock_def initSplit_def splitIntoCompleteBlocks_def

lemmas render_defs = pushBlock_def appendBlock_def appendFallback_def appendNewContent_def
  echoEnv_def throwingEnv_def failingConverterEnv_def

lemmas accumulate_defs = handleContentUpdate_def processAccumulatedContent_def
  overflowFlush_def resetComponent_def initComponent_def handleCompleted_def

section \<open>Reset on empty and on shorter content\<close>

lemma resetComponent_init: "resetComponent s = initComponent"
  by (simp add: resetComponent_def initComponent_def)

text \<open>
  Claim C10. When \<open>handleContentUpdate\<close> receives an absent or an empty content, it clears
  the stored blocks, the processed length, the block counter and the accumulated buffer and
  returns, whatever the state was before; nothing is rendered.
\<close>

theorem handleContentUpdate_empty_clears:
  "handleContentUpdate e None s = Returned initComponent
   \<and> handleContentUpdate e (Some []) s = Returned initComponent"
  by (simp add: handleContentUpdate_def resetComponent_init)

theorem handleContentUpdate_empty_clears_witness:
  "handleContentUpdate echoEnv None
     \<lparr>renderBlocks = [\<lparr>id_blk = mdBlockId 0, html = js ''<p>old</p>''\<rparr>], processedLength = 10,
      blockCounter = 1, accumulatedMarkdown = js ''rest''\<rparr>
   = Returned \<lparr>renderBlocks = [], processedLength = 0, blockCounter = 0, accumulatedMarkdown = []\<rparr>
   \<and> handleContentUpdate echoEnv (Some [])
     \<lparr>renderBlocks = [\<lparr>id_blk = mdBlockId 0, html = js ''<p>old</p>''\<rparr>], processedLength = 10,
      blockCounter = 1, accumulatedMarkdown = js ''rest''\<rparr>
   = Returned \<lparr>renderBlocks = [], processedLength = 0, blockCounter = 0, accumulatedMarkdown = []\<rparr>"
  using handleContentUpdate_empty_clears [of echoEnv
      "\<lparr>renderBlocks = [\<lparr>id_blk = mdBlockId 0, html = js ''<p>old</p>''\<rparr>], processedLength = 10,
        blockCounter = 1, accumulatedMarkdown = js ''rest''\<rparr>"]
  by (simp add: initComponent_def)



section \<open>Lines, white space and input without tags\<close>

lemma dropWhile_all_iff: "(\<forall>x \<in> set (dropWhile P xs). P x) \<longleftrightarrow> (\<forall>x \<in> set xs. P x)"
  by (induction xs) auto

lemma trim_Nil_iff: "trim s = [] \<longleftrightarrow> (\<forall>c \<in> set s. isWs c)"
  by (simp add: trim_def dropWsEnd_def dropWhile_eq_Nil_conv dropWhile_all_iff)

lemma lastIndexOfNl_none: "10 \<notin> set xs \<Longrightarrow> lastIndexOfNl xs = -1"
  by (induction xs) (auto simp: Let_def)

lemma lastIndexOfNl_append:
  "10 \<notin> set post \<Longrightarrow> lastIndexOfNl (pre @ 10 # post) = int (length pre)"
  by (induction pre) (auto simp: Let_def lastIndexOfNl_none)

lemma splitNl_no_nl: "10 \<notin> set xs \<Longrightarrow> splitNl xs = [xs]"
  by (induction xs) auto

lemma splitNl_append_nl: "10 \<notin> set xs \<Longrightarrow> splitNl (xs @ 10 # ys) = xs # splitNl ys"
  by (induction xs) auto

lemma substring_prefix_nl: "substring (pre @ 10 # post) 0 (int (length pre) + 1) = pre @ [10]"
  by (simp add: substring_def clampIdx_def nat_add_distrib)

lemma substringFrom_after_nl: "substringFrom (pre @ 10 # post) (int (length pre) + 1) = post"
  by (simp add: substringFrom_def clampIdx_def nat_add_distrib)

lemma addTableClass_no_lt: "60 \<notin> set h \<Longrightarrow> addTableClass h = h"
  by (induction h) (auto simp: startsWith_def)

lemma splitStep_no_lt:
  assumes "60 \<notin> set h"
  shows "splitStep h i st = (st, i + 1)"
proof -
  have "charAt h i \<noteq> Some 60"
    using assms by (metis charAt_def nth_mem option.inject option.simps(3))
  then show ?thesis
    by (simp add: splitStep_def)
qed

lemma splitLoop_no_lt: "60 \<notin> set h \<Longrightarrow> splitLoop h i st = st"
proof (induction h i st rule: splitLoop.induct)
  case (1 h i st)
  show ?case
  proof (cases "i < length h")
    case True
    with 1 show ?thesis
      by (subst splitLoop.simps) (simp add: splitStep_no_lt)
  next
    case False
    then show ?thesis by (subst splitLoop.simps) simp
  qed
qed

lemma splitIntoCompleteBlocks_no_lt:
  "60 \<notin> set h \<Longrightarrow> trim h \<noteq> [] \<Longrightarrow> splitIntoCompleteBlocks h = [h]"
  by (auto simp: splitIntoCompleteBlocks_def splitLoop_no_lt processLastBlock_def initSplit_def
      trim_def dropWsEnd_def)

lemma appendNewContent_echo_plain:
  assumes "60 \<notin> set c" and "trim c \<noteq> []" and "renderBlocks s = []"
  shows "appendNewContent echoEnv c s = Returned (pushBlock s c)"
  using assms
  by (simp add: appendNewContent_def echoEnv_def addTableClass_no_lt
      splitIntoCompleteBlocks_no_lt appendBlock_def)

section \<open>The buffer is not touched by the render pipeline\<close>

lemma accumulated_appendBlock [simp]:
  "accumulatedMarkdown (appendBlock s b) = accumulatedMarkdown s"
  by (simp add: appendBlock_def pushBlock_def split: option.splits)

lemma accumulated_foldl_appendBlock [simp]:
  "accumulatedMarkdown (foldl appendBlock s bs) = accumulatedMarkdown s"
  by (induction bs arbitrary: s) simp_all

lemma accumulated_appendNewContent [simp]:
  "accumulatedMarkdown (stateOf (appendNewContent e c s)) = accumulatedMarkdown s"
  by (simp add: appendNewContent_def appendFallback_def pushBlock_def split: option.splits)

section \<open>The size-based fallback\<close>

lemma overflowFlush_cut:
  assumes buf: "accumulatedMarkdown s = pre @ 10 # post"
    and long: "1000 < length (pre @ 10 # post)"
    and nearest: "10 \<notin> set post"
    and beyond: "100 < length pre"
  shows "overflowFlush e s =
           andThen (appendNewContent e (pre @ [10]) s)
             (\<lambda>s'. Returned (s'\<lparr>accumulatedMarkdown := post\<rparr>))"
proof -
  have last: "lastIndexOfNl (accumulatedMarkdown s) = int (length pre)"
    using buf nearest by (simp add: lastIndexOfNl_append)
  have "overflowFlush e s = andThen (appendNewContent e (pre @ [10]) s)
      (\<lambda>s'. Returned (s'\<lparr>accumulatedMarkdown :=
          substringFrom (accumulatedMarkdown s') (int (length pre) + 1)\<rparr>))"
    using long beyond last buf
    by (simp add: overflowFlush_def Let_def substring_prefix_nl del: length_append)
  also have "\<dots> = andThen (appendNewContent e (pre @ [10]) s)
      (\<lambda>s'. Returned (s'\<lparr>accumulatedMarkdown := post\<rparr>))"
  proof (cases "appendNewContent e (pre @ [10]) s")
    case (Returned s')
    then have "accumulatedMarkdown s' = pre @ 10 # post"
      using accumulated_appendNewContent [of e "pre @ [10]" s] buf by simp
    with Returned show ?thesis
      by (simp add: substringFrom_after_nl)
  next
    case (Thrown s')
    then show ?thesis by simp
  qed
  finally show ?thesis .
qed

lemma overflowFlush_keep:
  assumes "\<not> 100 < lastIndexOfNl (accumulatedMarkdown s)"
  shows "overflowFlush e s = Returned s"
  using assms by (simp add: overflowFlush_def Let_def)

lemma processAccumulatedContent_no_boundary:
  assumes "1000 < length (accumulatedMarkdown s)"
    and "detectBlockBoundaries (accumulatedMarkdown s) = []"
  shows "processAccumulatedContent e s = overflowFlush e s"
proof -
  from assms(1) have "accumulatedMarkdown s \<noteq> []"
    by auto
  with assms(2) show ?thesis
    by (simp add: processAccumulatedContent_def)
qed

lemma substringFrom_zero: "substringFrom c 0 = c"
  by (simp add: substringFrom_def substring_def clampIdx_def)

text \<open>
  Claim C5. Let the buffer be longer than 1000 code units and the detector have found no
  boundary in it. When the last line feed of the buffer is at an offset above 100, the
  buffer is cut after that line feed: the text up to and including it is rendered as a
  chunk, and what follows it is what stays in the buffer. When the last line feed is at
  offset 100 or below, or the buffer holds no line feed at all, nothing is rendered and the
  buffer stays as it is.
\<close>

theorem overflow_cuts_only_at_newline_beyond_100:
  assumes long: "1000 < length (accumulatedMarkdown s)"
    and none: "detectBlockBoundaries (accumulatedMarkdown s) = []"
  shows "(\<forall>pre post. accumulatedMarkdown s = pre @ 10 # post \<and> 10 \<notin> set post \<and> 100 < length pre \<longrightarrow>
            processAccumulatedContent e s =
              andThen (appendNewContent e (pre @ [10]) s)
                (\<lambda>s'. Returned (s'\<lparr>accumulatedMarkdown := post\<rparr>)))
       \<and> (\<forall>pre post. accumulatedMarkdown s = pre @ 10 # post \<and> 10 \<notin> set post \<and> length pre \<le> 100 \<longrightarrow>
            processAccumulatedContent e s = Returned s)
       \<and> (10 \<notin> set (accumulatedMarkdown s) \<longrightarrow> processAccumulatedContent e s = Returned s)"
proof (intro conjI allI impI)
  note flush = processAccumulatedContent_no_boundary [OF long none, of e]
  {
    fix pre post
    assume c: "accumulatedMarkdown s = pre @ 10 # post \<and> 10 \<notin> set post \<and> 100 < length pre"
    then have buf: "accumulatedMarkdown s = pre @ 10 # post" and nearest: "10 \<notin> set post"
      and beyond: "100 < length pre"
      by blast+
    from long buf have "1000 < length (pre @ 10 # post)"
      by simp
    with buf have "overflowFlush e s = andThen (appendNewContent e (pre @ [10]) s)
        (\<lambda>s'. Returned (s'\<lparr>accumulatedMarkdown := post\<rparr>))"
      using nearest beyond by (rule overflowFlush_cut)
    with flush show "processAccumulatedContent e s =
        andThen (appendNewContent e (pre @ [10]) s)
          (\<lambda>s'. Returned (s'\<lparr>accumulatedMarkdown := post\<rparr>))"
      by simp
  next
    fix pre post
    assume c: "accumulatedMarkdown s = pre @ 10 # post \<and> 10 \<notin> set post \<and> length pre \<le> 100"
    then have "lastIndexOfNl (accumulatedMarkdown s) = int (length pre)"
      by (simp add: lastIndexOfNl_append)
    with c have "\<not> 100 < lastIndexOfNl (accumulatedMarkdown s)"
      by simp
    then have "overflowFlush e s = Returned s"
      by (rule overflowFlush_keep)
    with flush show "processAccumulatedContent e s = Returned s"
      by simp
  next
    assume "10 \<notin> set (accumulatedMarkdown s)"
    then have "lastIndexOfNl (accumulatedMarkdown s) = -1"
      by (rule lastIndexOfNl_none)
    then have "\<not> 100 < lastIndexOfNl (accumulatedMarkdown s)"
      by simp
    then have "overflowFlush e s = Returned s"
      by (rule overflowFlush_keep)
    with flush show "processAccumulatedContent e s = Returned s"
      by simp
  }
qed

lemma splitNl_longParagraph:
  "splitNl longParagraph = [97 # replicate 199 97, 98 # replicate 899 98]"
  unfolding longParagraph_def by (subst splitNl_append_nl) (simp_all add: splitNl_no_nl)

lemma detect_longParagraph: "detectBlockBoundaries longParagraph = []"
  by (simp add: detectBlockBoundaries_def splitNl_longParagraph)
     (simp add: detect_defs trim_Nil_iff isWs_def isDigit_def)

lemma detect_longLine: "detectBlockBoundaries longLine = []"
  unfolding longLine_def detectBlockBoundaries_def
  by (simp add: splitNl_no_nl) (simp add: detect_defs trim_Nil_iff isWs_def isDigit_def)

lemma splitNl_lateBreakBuffer:
  "splitNl lateBreakBuffer = [js ''Intro:'', 97 # replicate 1199 97]"
  unfolding lateBreakBuffer_def by (subst splitNl_append_nl) (simp_all add: splitNl_no_nl)

lemma detect_lateBreakBuffer: "detectBlockBoundaries lateBreakBuffer = []"
  by (simp add: detectBlockBoundaries_def splitNl_lateBreakBuffer)
     (simp add: detect_defs trim_Nil_iff isWs_def isDigit_def)

lemma lastIndexOfNl_longLine: "lastIndexOfNl longLine = -1"
  unfolding longLine_def by (rule lastIndexOfNl_none) simp

lemma lastIndexOfNl_lateBreakBuffer: "lastIndexOfNl lateBreakBuffer = 6"
proof -
  have "lastIndexOfNl (js ''Intro:'' @ 10 # 97 # replicate 1199 97) = int (length (js ''Intro:''))"
    by (rule lastIndexOfNl_append) simp
  then show ?thesis
    by (simp add: lateBreakBuffer_def)
qed

theorem overflow_cuts_only_at_newline_beyond_100_witness:
  "1000 < length (accumulatedMarkdown (initComponent\<lparr>accumulatedMarkdown := longParagraph\<rparr>))
   \<and> detectBlockBoundaries (accumulatedMarkdown (initComponent\<lparr>accumulatedMarkdown := longParagraph\<rparr>)) = []
   \<and> accumulatedMarkdown (initComponent\<lparr>accumulatedMarkdown := longParagraph\<rparr>)
     = (97 # replicate 199 97) @ 10 # 98 # replicate 899 98
   \<and> 10 \<notin> set (98 # replicate 899 (98 :: jschar))
   \<and> 100 < length (97 # replicate 199 (97 :: jschar))
   \<and> processAccumulatedContent echoEnv (initComponent\<lparr>accumulatedMarkdown := longParagraph\<rparr>)
     = Returned \<lparr>renderBlocks = [\<lparr>id_blk = mdBlockId 0, html = (97 # replicate 199 97) @ [10]\<rparr>],
         processedLength = 0, blockCounter = 1, accumulatedMarkdown = 98 # replicate 899 98\<rparr>
   \<and> 1000 < length (accumulatedMarkdown (initComponent\<lparr>accumulatedMarkdown := lateBreakBuffer\<rparr>))
   \<and> detectBlockBoundaries (accumulatedMarkdown (initComponent\<lparr>accumulatedMarkdown := lateBreakBuffer\<rparr>)) = []
   \<and> accumulatedMarkdown (initComponent\<lparr>accumulatedMarkdown := lateBreakBuffer\<rparr>)
     = js ''Intro:'' @ 10 # 97 # replicate 1199 97
   \<and> 10 \<notin> set (97 # replicate 1199 (97 :: jschar))
   \<and> length (js ''Intro:'') \<le> 100
   \<and> processAccumulatedContent echoEnv (initComponent\<lparr>accumulatedMarkdown := lateBreakBuffer\<rparr>)
     = Returned (initComponent\<lparr>accumulatedMarkdown := lateBreakBuffer\<rparr>)
   \<and> 1000 < length (accumulatedMarkdown (initComponent\<lparr>accumulatedMarkdown := longLine\<rparr>))
   \<and> detectBlockBoundaries (accumulatedMarkdown (initComponent\<lparr>accumulatedMarkdown := longLine\<rparr>)) = []
   \<and> 10 \<notin> set (accumulatedMarkdown (initComponent\<lparr>accumulatedMarkdown := longLine\<rparr>))
   \<and> processAccumulatedContent echoEnv (initComponent\<lparr>accumulatedMarkdown := longLine\<rparr>)
     = Returned (initComponent\<lparr>accumulatedMarkdown := longLine\<rparr>)"
proof -
  let ?s1 = "initComponent\<lparr>accumulatedMarkdown := longParagraph\<rparr>"
  let ?s2 = "initComponent\<lparr>accumulatedMarkdown := lateBreakBuffer\<rparr>"
  let ?s3 = "initComponent\<lparr>accumulatedMarkdown := longLine\<rparr>"
  have long1: "1000 < length (accumulatedMarkdown ?s1)"
    by (simp add: longParagraph_def)
  have none1: "detectBlockBoundaries (accumulatedMarkdown ?s1) = []"
    by (simp add: detect_longParagraph)
  have buf1: "accumulatedMarkdown ?s1 = (97 # replicate 199 97) @ 10 # 98 # replicate 899 98"
    by (simp add: longParagraph_def)
  have nl1: "10 \<notin> set (98 # replicate 899 (98 :: jschar))"
    by simp
  have off1: "100 < length (97 # replicate 199 (97 :: jschar))"
    by simp
  have app: "appendNewContent echoEnv ((97 # replicate 199 97) @ [10]) ?s1
    = Returned (pushBlock ?s1 ((97 # replicate 199 97) @ [10]))"
    by (rule appendNewContent_echo_plain) (simp_all add: trim_Nil_iff isWs_def initComponent_def)
  from overflow_cuts_only_at_newline_beyond_100 [OF long1 none1, of echoEnv] buf1 nl1 off1
  have "processAccumulatedContent echoEnv ?s1
     = andThen (appendNewContent echoEnv ((97 # replicate 199 97) @ [10]) ?s1)
         (\<lambda>s'. Returned (s'\<lparr>accumulatedMarkdown := 98 # replicate 899 98\<rparr>))"
    by blast
  then have run1: "processAccumulatedContent echoEnv ?s1
     = Returned \<lparr>renderBlocks = [\<lparr>id_blk = mdBlockId 0, html = (97 # replicate 199 97) @ [10]\<rparr>],
         processedLength = 0, blockCounter = 1, accumulatedMarkdown = 98 # replicate 899 98\<rparr>"
    unfolding app by (simp add: pushBlock_def initComponent_def)
  have long2: "1000 < length (accumulatedMarkdown ?s2)"
    by (simp add: lateBreakBuffer_def)
  have none2: "detectBlockBoundaries (accumulatedMarkdown ?s2) = []"
    by (simp add: detect_lateBreakBuffer)
  have buf2: "accumulatedMarkdown ?s2 = js ''Intro:'' @ 10 # 97 # replicate 1199 97"
    by (simp add: lateBreakBuffer_def)
  have nl2: "10 \<notin> set (97 # replicate 1199 (97 :: jschar))"
    by simp
  have off2: "length (js ''Intro:'') \<le> 100"
    by simp
  from overflow_cuts_only_at_newline_beyond_100 [OF long2 none2, of echoEnv] buf2 nl2 off2
  have run2: "processAccumulatedContent echoEnv ?s2 = Returned ?s2"
    by blast
  have long3: "1000 < length (accumulatedMarkdown ?s3)"
    by (simp add: longLine_def)
  have none3: "detectBlockBoundaries (accumulatedMarkdown ?s3) = []"
    by (simp add: detect_longLine)
  have nl3: "10 \<notin> set (accumulatedMarkdown ?s3)"
    by (simp add: longLine_def)
  from overflow_cuts_only_at_newline_beyond_100 [OF long3 none3, of echoEnv] nl3
  have run3: "processAccumulatedContent echoEnv ?s3 = Returned ?s3"
    by blast
  from long1 none1 buf1 nl1 off1 run1 long2 none2 buf2 nl2 off2 run2 long3 none3 nl3 run3
  show ?thesis
    by (intro conjI)
qed

text \<open>
  A buffer above 1000 code units with no boundary and no line feed beyond offset 100 is not
  flushed: one content update with a line of 1200 letters, or with a short first line
  followed by such a line, renders no block and keeps the whole text in the buffer.
\<close>

theorem long_line_without_late_newline_is_kept:
  "1000 < length longLine
   \<and> detectBlockBoundaries longLine = []
   \<and> lastIndexOfNl longLine = -1
   \<and> handleContentUpdate echoEnv (Some longLine) initComponent
       = Returned \<lparr>renderBlocks = [], processedLength = 1200, blockCounter = 0,
                   accumulatedMarkdown = longLine\<rparr>
   \<and> 1000 < length lateBreakBuffer
   \<and> detectBlockBoundaries lateBreakBuffer = []
   \<and> lastIndexOfNl lateBreakBuffer = 6
   \<and> handleContentUpdate echoEnv (Some lateBreakBuffer) initComponent
       = Returned \<lparr>renderBlocks = [], processedLength = 1207, blockCounter = 0,
                   accumulatedMarkdown = lateBreakBuffer\<rparr>"
proof -
  have l1: "1000 < length longLine" and n1: "longLine \<noteq> []" and len1: "length longLine = 1200"
    by (simp_all add: longLine_def)
  have l2: "1000 < length lateBreakBuffer" and n2: "lateBreakBuffer \<noteq> []"
    and len2: "length lateBreakBuffer = 1207"
    by (simp_all add: lateBreakBuffer_def)
  have p1: "processAccumulatedContent echoEnv (initComponent\<lparr>accumulatedMarkdown := longLine\<rparr>)
      = Returned (initComponent\<lparr>accumulatedMarkdown := longLine\<rparr>)"
    using n1 by (simp add: processAccumulatedContent_def detect_longLine overflowFlush_keep
        lastIndexOfNl_longLine)
  have p2: "processAccumulatedContent echoEnv (initComponent\<lparr>accumulatedMarkdown := lateBreakBuffer\<rparr>)
      = Returned (initComponent\<lparr>accumulatedMarkdown := lateBreakBuffer\<rparr>)"
    using n2 by (simp add: processAccumulatedContent_def detect_lateBreakBuffer overflowFlush_keep
        lastIndexOfNl_lateBreakBuffer)
  have i: "accumulatedMarkdown initComponent = []" "processedLength initComponent = 0"
    by (simp_all add: initComponent_def)
  have h1: "handleContentUpdate echoEnv (Some longLine) initComponent
       = Returned \<lparr>renderBlocks = [], processedLength = 1200, blockCounter = 0,
                   accumulatedMarkdown = longLine\<rparr>"
    using n1 by (simp add: handleContentUpdate_def Let_def i substringFrom_zero p1 len1)
                (simp add: initComponent_def)
  have h2: "handleContentUpdate echoEnv (Some lateBreakBuffer) initComponent
       = Returned \<lparr>renderBlocks = [], processedLength = 1207, blockCounter = 0,
                   accumulatedMarkdown = lateBreakBuffer\<rparr>"
    using n2 by (simp add: handleContentUpdate_def Let_def i substringFrom_zero p2 len2)
                (simp add: initComponent_def)
  from l1 detect_longLine lastIndexOfNl_longLine h1 l2 detect_lateBreakBuffer
    lastIndexOfNl_lateBreakBuffer h2
  show ?thesis
    by (intro conjI)
qed

lemma splitNl_openFenceBuffer:
  "splitNl openFenceBuffer = [js ''```'', 97 # replicate 999 97, js ''b'']"
proof -
  have "splitNl openFenceBuffer = js ''```'' # splitNl ((97 # replicate 999 97) @ 10 # js ''b'')"
    unfolding openFenceBuffer_def append_assoc append_Cons by (rule splitNl_append_nl) simp
  also have "splitNl ((97 # replicate 999 97) @ 10 # js ''b'') = (97 # replicate 999 97) # splitNl (js ''b'')"
    by (rule splitNl_append_nl) simp
  finally show ?thesis by simp
qed

section \<open>Flush points and fenced code blocks\<close>

text \<open>
  The boundaries recorded for a line are appended to those recorded before it, so that the
  scan can be followed line by line.
\<close>

lemma processLine_append:
  "processLine line rest i st bs =
     (fst (processLine line rest i st []), bs @ snd (processLine line rest i st []))"
  by (simp add: processLine_def processCodeBlock_def processHeading_def processListItem_def
      processEmptyLine_def Let_def split: option.splits)

lemma scanLines_append:
  "scanLines lines i st bs =
     (fst (scanLines lines i st []), bs @ snd (scanLines lines i st []))"
proof (induction lines arbitrary: i st bs)
  case Nil
  show ?case by simp
next
  case (Cons l ls)
  obtain st' new where p: "processLine l ls i st [] = (st', new)"
    by (cases "processLine l ls i st []")
  have "processLine l ls i st bs = (st', bs @ new)"
    using processLine_append [of l ls i st bs] p by simp
  then have "scanLines (l # ls) i st bs = scanLines ls (i + 1) st' (bs @ new)"
    by simp
  also have "\<dots> = (fst (scanLines ls (i + 1) st' []), (bs @ new) @ snd (scanLines ls (i + 1) st' []))"
    by (rule Cons.IH)
  also have "scanLines ls (i + 1) st' new
      = (fst (scanLines ls (i + 1) st' []), new @ snd (scanLines ls (i + 1) st' []))"
    by (rule Cons.IH)
  ultimately show ?case
    using p by simp
qed

lemma processLine_closing:
  assumes "inCodeBlock st" and "fenceMatch l = Some (codeBlockFence st)"
  shows "processLine l rest i st [] =
    (st\<lparr>inCodeBlock := False, codeBlockFence := [], lastNonEmptyLineIndex := i,
        currentIndex := currentIndex st + int (length l) + 1\<rparr>,
     [currentIndex st + int (length l)])"
  using assms by (simp add: processLine_def processCodeBlock_def Let_def)

lemma processLine_in_fence:
  assumes "inCodeBlock st" and "fenceMatch l \<noteq> Some (codeBlockFence st)"
  shows "processLine l rest i st [] = (st\<lparr>currentIndex := currentIndex st + int (length l) + 1\<rparr>, [])"
  using assms by (simp add: processLine_def processCodeBlock_def Let_def split: option.splits)

lemma processLine_opening:
  assumes "\<not> inCodeBlock st" and "fenceMatch l = Some m"
  shows "inCodeBlock (fst (processLine l rest i st []))
    \<and> codeBlockFence (fst (processLine l rest i st [])) = m
    \<and> currentIndex (fst (processLine l rest i st [])) = currentIndex st + int (length l) + 1
    \<and> set (snd (processLine l rest i st [])) \<subseteq> {currentIndex st - 1}"
  using assms by (auto simp: processLine_def processCodeBlock_def Let_def)

lemma processLine_outside:
  assumes "\<not> inCodeBlock st" and "fenceMatch l = None"
  shows "\<not> inCodeBlock (fst (processLine l rest i st []))
    \<and> currentIndex (fst (processLine l rest i st [])) = currentIndex st + int (length l) + 1
    \<and> set (snd (processLine l rest i st []))
        \<subseteq> {currentIndex st - 1, currentIndex st + int (length l)}"
  using assms
  by (auto simp: processLine_def processCodeBlock_def processHeading_def processListItem_def
      processEmptyLine_def Let_def split: option.splits list.splits)

lemma fenceSpans_start:
  assumes "(a, b) \<in> set (fenceSpans ls cur opened)"
  shows "(\<exists>m. opened = Some (m, a)) \<or> cur \<le> a"
  using assms
proof (induction ls arbitrary: cur opened)
  case Nil
  then show ?case by (cases opened) auto
next
  case (Cons l ls)
  show ?case
  proof (cases opened)
    case None
    with Cons.prems Cons.IH [of "cur + int (length l) + 1"] show ?thesis
      by (fastforce split: option.splits)
  next
    case (Some p)
    obtain m a0 where p: "p = (m, a0)" by (cases p)
    with Some Cons.prems Cons.IH [of "cur + int (length l) + 1"] show ?thesis
      by (fastforce split: if_splits)
  qed
qed

lemma boundaries_outside_fences:
  assumes "fenceAgree st opened" and "off \<in> set (snd (scanLines ls i st []))"
  shows "currentIndex st - 1 \<le> off
    \<and> \<not> list_ex (\<lambda>(a, b). a \<le> off \<and> off < b) (fenceSpans ls (currentIndex st) opened)"
  using assms
proof (induction ls arbitrary: i st opened)
  case Nil
  then show ?case by simp
next
  case (Cons l ls)
  let ?cur = "currentIndex st"
  let ?cur' = "?cur + int (length l) + 1"
  obtain st' new where p: "processLine l ls i st [] = (st', new)"
    by (cases "processLine l ls i st []")
  then have "snd (scanLines (l # ls) i st []) = new @ snd (scanLines ls (i + 1) st' [])"
    using scanLines_append [of ls "i + 1" st' new] by simp
  with Cons.prems(2) consider (here) "off \<in> set new" | (later) "off \<in> set (snd (scanLines ls (i + 1) st' []))"
    by auto
  note place = this
  have later_spans: "\<not> list_ex (\<lambda>(a, b). a \<le> off \<and> off < b) (fenceSpans ls ?cur' None)"
    if "off < ?cur'" for off
    using that fenceSpans_start [of _ _ ls ?cur' None] by (fastforce simp: list_ex_iff)
  show ?case
  proof (cases opened)
    case None
    with Cons.prems(1) have out: "\<not> inCodeBlock st"
      by (simp add: fenceAgree_def)
    show ?thesis
    proof (cases "fenceMatch l")
      case fm: None
      from processLine_outside [OF out fm, of ls i] p
      have st': "\<not> inCodeBlock st'" "currentIndex st' = ?cur'"
        and new: "set new \<subseteq> {?cur - 1, ?cur + int (length l)}"
        by simp_all
      have spans: "fenceSpans (l # ls) ?cur opened = fenceSpans ls ?cur' None"
        using None fm by simp
      from st' have agree: "fenceAgree st' None"
        by (simp add: fenceAgree_def)
      from place show ?thesis
      proof cases
        case here
        with new have "off = ?cur - 1 \<or> off = ?cur + int (length l)"
          by auto
        then have "?cur - 1 \<le> off" and "off < ?cur'"
          by auto
        with later_spans spans show ?thesis
          by simp
      next
        case later
        from Cons.IH [OF agree later] st' spans show ?thesis
          by simp
      qed
    next
      case fm: (Some m)
      from processLine_opening [OF out fm, of ls i] p
      have st': "inCodeBlock st'" "codeBlockFence st' = m" "currentIndex st' = ?cur'"
        and new: "set new \<subseteq> {?cur - 1}"
        by simp_all
      have spans: "fenceSpans (l # ls) ?cur opened = fenceSpans ls ?cur' (Some (m, ?cur))"
        using None fm by simp
      from st' have agree: "fenceAgree st' (Some (m, ?cur))"
        by (simp add: fenceAgree_def)
      from place show ?thesis
      proof cases
        case here
        with new have off: "off = ?cur - 1"
          by auto
        have "\<not> list_ex (\<lambda>(a, b). a \<le> off \<and> off < b) (fenceSpans ls ?cur' (Some (m, ?cur)))"
          using off fenceSpans_start [of _ _ ls ?cur' "Some (m, ?cur)"]
          by (fastforce simp: list_ex_iff)
        with off spans show ?thesis
          by simp
      next
        case later
        from Cons.IH [OF agree later] st' spans show ?thesis
          by simp
      qed
    qed
  next
    case (Some q)
    obtain m a0 where q: "q = (m, a0)" by (cases q)
    with Some Cons.prems(1) have inside: "inCodeBlock st" and fence: "codeBlockFence st = m"
        and a0: "a0 < ?cur"
      by (simp_all add: fenceAgree_def)
    show ?thesis
    proof (cases "fenceMatch l = Some m")
      case True
      with fence have "fenceMatch l = Some (codeBlockFence st)"
        by simp
      from processLine_closing [OF inside this, of ls i] p
      have st': "\<not> inCodeBlock st'" "currentIndex st' = ?cur'"
        and new: "new = [?cur + int (length l)]"
        by auto
      have spans: "fenceSpans (l # ls) ?cur opened
          = (a0, ?cur + int (length l)) # fenceSpans ls ?cur' None"
        using Some q True by simp
      from st' have agree: "fenceAgree st' None"
        by (simp add: fenceAgree_def)
      from place show ?thesis
      proof cases
        case here
        with new have off: "off = ?cur + int (length l)"
          by simp
        then have "off < ?cur'" by simp
        with later_spans off spans show ?thesis
          by simp
      next
        case later
        from Cons.IH [OF agree later] st' spans show ?thesis
          by simp
      qed
    next
      case False
      with fence have "fenceMatch l \<noteq> Some (codeBlockFence st)"
        by simp
      from processLine_in_fence [OF inside this, of ls i] p
      have st': "st' = st\<lparr>currentIndex := ?cur'\<rparr>" and new: "new = []"
        by auto
      have spans: "fenceSpans (l # ls) ?cur opened = fenceSpans ls ?cur' (Some (m, a0))"
        using Some q False by simp
      from st' inside fence a0 have agree: "fenceAgree st' (Some (m, a0))"
        by (simp add: fenceAgree_def)
      from place show ?thesis
      proof cases
        case here
        with new show ?thesis by simp
      next
        case later
        from Cons.IH [OF agree later] st' spans show ?thesis
          by simp
      qed
    qed
  qed
qed

lemma detector_outside_fences:
  assumes "off \<in> set (detectBlockBoundaries markdown)"
  shows "\<not> insideFence markdown off"
proof -
  from assms have "off \<in> set (snd (scanLines (splitNl markdown) 0 initScan []))"
    by (simp add: detectBlockBoundaries_def)
  moreover have "fenceAgree initScan None"
    by (simp add: fenceAgree_def initScan_def)
  ultimately have "\<not> list_ex (\<lambda>(a, b). a \<le> off \<and> off < b)
      (fenceSpans (splitNl markdown) (currentIndex initScan) None)"
    using boundaries_outside_fences by blast
  then show ?thesis
    by (simp add: insideFence_def initScan_def)
qed

text \<open>
  Claim C1. No boundary recorded by \<open>detectBlockBoundaries\<close> is inside a fence, closed or
  still open, whatever the lines of the fence body look like. The size-based fallback is
  another matter: on the buffer \<open>openFenceBuffer\<close>, whose first line opens a fence that is
  still open at the end of the buffer, the detector records no boundary, the last line feed
  is at offset 1004, inside the fence, and the fallback cuts the buffer there: the opening
  line and the first line of the body are rendered as a chunk, and the rest of the body
  stays in the buffer.
\<close>

theorem detector_respects_fences_fallback_cuts_inside:
  "(\<forall>off \<in> set (detectBlockBoundaries markdown). \<not> insideFence markdown off)
   \<and> detectBlockBoundaries openFenceBuffer = []
   \<and> fenceSpans (splitNl openFenceBuffer) 0 None = [(0, 1007)]
   \<and> lastIndexOfNl openFenceBuffer = 1004
   \<and> insideFence openFenceBuffer 1004
   \<and> processAccumulatedContent echoEnv (initComponent\<lparr>accumulatedMarkdown := openFenceBuffer\<rparr>)
     = Returned \<lparr>renderBlocks = [\<lparr>id_blk = mdBlockId 0,
                                    html = (js ''```'' @ 10 # 97 # replicate 999 97) @ [10]\<rparr>],
         processedLength = 0, blockCounter = 1, accumulatedMarkdown = js ''b''\<rparr>"
proof -
  let ?pre = "js ''```'' @ 10 # 97 # replicate 999 97"
  let ?s = "initComponent\<lparr>accumulatedMarkdown := openFenceBuffer\<rparr>"
  have general: "\<forall>off \<in> set (detectBlockBoundaries markdown). \<not> insideFence markdown off"
    by (rule ballI) (rule detector_outside_fences)
  have det: "detectBlockBoundaries openFenceBuffer = []"
    unfolding detectBlockBoundaries_def splitNl_openFenceBuffer
    by (simp add: detect_defs trim_Nil_iff isWs_def isDigit_def)
  have spans: "fenceSpans (splitNl openFenceBuffer) 0 None = [(0, 1007)]"
    unfolding splitNl_openFenceBuffer
    by (simp add: fenceMatch_def trim_Nil_iff isWs_def isDigit_def)
  have buf: "accumulatedMarkdown ?s = ?pre @ 10 # js ''b''"
    by (simp add: openFenceBuffer_def)
  have "lastIndexOfNl (?pre @ 10 # js ''b'') = int (length ?pre)"
    by (rule lastIndexOfNl_append) simp
  then have last: "lastIndexOfNl openFenceBuffer = 1004"
    by (simp add: openFenceBuffer_def)
  from spans have inside: "insideFence openFenceBuffer 1004"
    by (simp add: insideFence_def)
  have app: "appendNewContent echoEnv (?pre @ [10]) ?s = Returned (pushBlock ?s (?pre @ [10]))"
    by (rule appendNewContent_echo_plain) (simp_all add: trim_Nil_iff isWs_def initComponent_def)
  have "openFenceBuffer \<noteq> []"
    by (simp add: openFenceBuffer_def)
  with det have "processAccumulatedContent echoEnv ?s = overflowFlush echoEnv ?s"
    by (simp add: processAccumulatedContent_def)
  also have "\<dots> = andThen (appendNewContent echoEnv (?pre @ [10]) ?s)
          (\<lambda>s'. Returned (s'\<lparr>accumulatedMarkdown := js ''b''\<rparr>))"
    using buf by (rule overflowFlush_cut) simp_all
  finally have "processAccumulatedContent echoEnv ?s
     = Returned \<lparr>renderBlocks = [\<lparr>id_blk = mdBlockId 0, html = ?pre @ [10]\<rparr>],
         processedLength = 0, blockCounter = 1, accumulatedMarkdown = js ''b''\<rparr>"
    unfolding app by (simp add: pushBlock_def initComponent_def)
  with general det spans last inside show ?thesis
    by (intro conjI)
qed

theorem detector_respects_fences_fallback_cuts_inside_witness:
  "detectBlockBoundaries (js ''# h\<newline>text\<newline>```\<newline>\<newline># x\<newline>- l\<newline>```\<newline>after'') = [3, 25]
   \<and> fenceSpans (splitNl (js ''# h\<newline>text\<newline>```\<newline>\<newline># x\<newline>- l\<newline>```\<newline>after'')) 0 None = [(9, 25)]
   \<and> \<not> insideFence (js ''# h\<newline>text\<newline>```\<newline>\<newline># x\<newline>- l\<newline>```\<newline>after'') 3
   \<and> \<not> insideFence (js ''# h\<newline>text\<newline>```\<newline>\<newline># x\<newline>- l\<newline>```\<newline>after'') 25
   \<and> insideFence (js ''# h\<newline>text\<newline>```\<newline>\<newline># x\<newline>- l\<newline>```\<newline>after'') 13"
proof -
  let ?md = "js ''# h\<newline>text\<newline>```\<newline>\<newline># x\<newline>- l\<newline>```\<newline>after''"
  have det: "detectBlockBoundaries ?md = [3, 25]"
    by (simp add: detect_defs string_defs)
  have spans: "fenceSpans (splitNl ?md) 0 None = [(9, 25)]"
    by (simp add: fenceMatch_def string_defs)
  from detector_respects_fences_fallback_cuts_inside [of ?md]
  have "\<forall>off \<in> set (detectBlockBoundaries ?md). \<not> insideFence ?md off"
    by (rule conjunct1)
  with det have "\<not> insideFence ?md 3" and "\<not> insideFence ?md 25"
    by simp_all
  moreover have "insideFence ?md 13"
    using spans by (simp add: insideFence_def)
  ultimately show ?thesis
    using det spans by simp
qed


section \<open>Identifiers and the steps of the store\<close>

lemma decimal_value: "foldl (\<lambda>a d. 10 * a + (d - 48)) 0 (decimal n) = n"
proof (induction n rule: decimal.induct)
  case (1 n)
  show ?case
  proof (cases "n < 10")
    case True
    then show ?thesis by (subst decimal.simps) simp
  next
    case False
    with 1 show ?thesis by (subst decimal.simps) simp
  qed
qed

lemma decimal_inj: "decimal m = decimal n \<Longrightarrow> m = n"
  by (metis decimal_value)

lemma mdBlockId_inj: "mdBlockId m = mdBlockId n \<longleftrightarrow> m = n"
  by (auto simp: mdBlockId_def dest: decimal_inj)

lemma wellNumbered_init: "wellNumbered initComponent"
  by (simp add: wellNumbered_def initComponent_def)

lemma wellNumbered_distinct:
  assumes "wellNumbered s"
  shows "distinct (map id_blk (renderBlocks s))"
proof -
  from assms obtain ns where ns: "map id_blk (renderBlocks s) = map mdBlockId ns"
      and sorted: "sorted_wrt (<) ns"
    by (auto simp: wellNumbered_def)
  from sorted have "distinct ns"
    by (simp add: strict_sorted_iff)
  then have "distinct (map mdBlockId ns)"
    by (simp add: distinct_map inj_on_def mdBlockId_inj)
  with ns show ?thesis by simp
qed

lemma wellNumbered_fresh:
  assumes "wellNumbered s" and "blockCounter s \<le> n"
  shows "mdBlockId n \<notin> set (map id_blk (renderBlocks s))"
proof -
  from assms obtain ns where ns: "map id_blk (renderBlocks s) = map mdBlockId ns"
      and below: "\<forall>k \<in> set ns. k < blockCounter s"
    by (auto simp: wellNumbered_def)
  from below assms(2) have "n \<notin> set ns" by auto
  then have "mdBlockId n \<notin> set (map mdBlockId ns)"
    by (auto simp: mdBlockId_inj)
  with ns show ?thesis by simp
qed

lemma wellNumbered_step:
  assumes "storeStep s s'" and "wellNumbered s"
  shows "wellNumbered s'"
  using assms
proof (induction rule: storeStep.induct)
  case (push s h)
  then obtain ns where ns: "map id_blk (renderBlocks s) = map mdBlockId ns"
      and sorted: "sorted_wrt (<) ns" and below: "\<forall>k \<in> set ns. k < blockCounter s"
    by (auto simp: wellNumbered_def)
  have "map id_blk (renderBlocks (pushBlock s h)) = map mdBlockId (ns @ [blockCounter s])"
    using ns by (simp add: pushBlock_def)
  moreover have "sorted_wrt (<) (ns @ [blockCounter s])"
    using sorted below by (simp add: sorted_wrt_append)
  moreover have "\<forall>k \<in> set (ns @ [blockCounter s]). k < blockCounter (pushBlock s h)"
    using below by (auto simp: pushBlock_def)
  ultimately show ?case
    unfolding wellNumbered_def by blast
next
  case (rewrite s h)
  then obtain ns where ns: "map id_blk (renderBlocks s) = map mdBlockId ns"
      and sorted: "sorted_wrt (<) ns" and below: "\<forall>k \<in> set ns. k < blockCounter s"
    by (auto simp: wellNumbered_def)
  have "map id_blk (butlast (renderBlocks s) @ [(last (renderBlocks s))\<lparr>html := h\<rparr>])
      = map id_blk (butlast (renderBlocks s) @ [last (renderBlocks s)])"
    by simp
  also have "\<dots> = map id_blk (renderBlocks s)"
    using rewrite.hyps(1) by simp
  finally show ?case
    using ns sorted below unfolding wellNumbered_def by auto
next
  case (bump s)
  then obtain ns where "map id_blk (renderBlocks s) = map mdBlockId ns"
      and "sorted_wrt (<) ns" and "\<forall>k \<in> set ns. k < blockCounter s"
    by (auto simp: wellNumbered_def)
  then show ?case
    unfolding wellNumbered_def by (intro exI [of _ ns]) (auto simp: less_SucI)
next
  case (buffer s a)
  then show ?case by (simp add: wellNumbered_def)
next
  case (cursor s n)
  then show ?case by (simp add: wellNumbered_def)
qed

lemma wellNumbered_steps:
  assumes "storeStep\<^sup>*\<^sup>* s s'" and "wellNumbered s"
  shows "wellNumbered s'"
  using assms by (induction rule: rtranclp_induct) (auto intro: wellNumbered_step)


lemma mergeBlocks_html_only: "mergeBlocks L b = Some m \<Longrightarrow> m = L\<lparr>html := html m\<rparr>"
  by (auto simp: mergeBlocks_def Let_def split: if_splits)

lemma steps_push: "storeStep\<^sup>*\<^sup>* s (pushBlock s h)"
  by (simp add: storeStep.push r_into_rtranclp)

lemma steps_bump: "storeStep\<^sup>*\<^sup>* s (s\<lparr>blockCounter := Suc (blockCounter s)\<rparr>)"
  using storeStep.bump [of s] by (simp add: r_into_rtranclp)

lemma steps_buffer: "storeStep\<^sup>*\<^sup>* s (s\<lparr>accumulatedMarkdown := a\<rparr>)"
  by (simp add: storeStep.buffer r_into_rtranclp)

lemma steps_cursor: "storeStep\<^sup>*\<^sup>* s (s\<lparr>processedLength := n\<rparr>)"
  by (simp add: storeStep.cursor r_into_rtranclp)

lemma appendBlock_steps: "storeStep\<^sup>*\<^sup>* s (appendBlock s b)"
proof (cases "mergeBlocks (last (renderBlocks s)) b")
  case None
  then show ?thesis
    by (simp add: appendBlock_def steps_push)
next
  case (Some m)
  then have "m = (last (renderBlocks s))\<lparr>html := html m\<rparr>"
    by (rule mergeBlocks_html_only)
  then have "renderBlocks s \<noteq> [] \<Longrightarrow> \<not> containsImage (html (last (renderBlocks s))) \<Longrightarrow>
      storeStep\<^sup>*\<^sup>* s (s\<lparr>renderBlocks := butlast (renderBlocks s) @ [m]\<rparr>)"
    using storeStep.rewrite [of s "html m"] by (simp add: r_into_rtranclp)
  with Some show ?thesis
    by (simp add: appendBlock_def steps_push)
qed

lemma foldl_appendBlock_steps: "storeStep\<^sup>*\<^sup>* s (foldl appendBlock s bs)"
proof (induction bs arbitrary: s)
  case Nil
  show ?case by simp
next
  case (Cons b bs)
  have "storeStep\<^sup>*\<^sup>* s (appendBlock s b)"
    by (rule appendBlock_steps)
  also have "storeStep\<^sup>*\<^sup>* (appendBlock s b) (foldl appendBlock (appendBlock s b) bs)"
    by (rule Cons.IH)
  finally show ?case by simp
qed

lemma appendFallback_steps: "storeStep\<^sup>*\<^sup>* s (stateOf (appendFallback e c s))"
  by (simp add: appendFallback_def steps_push steps_bump split: option.splits)

lemma appendNewContent_steps: "storeStep\<^sup>*\<^sup>* s (stateOf (appendNewContent e c s))"
  by (auto simp: appendNewContent_def appendFallback_steps foldl_appendBlock_steps
      split: option.splits)

lemma andThen_steps:
  assumes "storeStep\<^sup>*\<^sup>* s (stateOf r)"
    and "\<And>s'. storeStep\<^sup>*\<^sup>* s' (stateOf (f s'))"
  shows "storeStep\<^sup>*\<^sup>* s (stateOf (andThen r f))"
proof (cases r)
  case (Returned s')
  with assms(1) have "storeStep\<^sup>*\<^sup>* s s'" by simp
  also have "storeStep\<^sup>*\<^sup>* s' (stateOf (f s'))" by (rule assms(2))
  finally show ?thesis using Returned by simp
next
  case (Thrown s')
  with assms(1) show ?thesis by simp
qed

lemma flushChunks_steps: "storeStep\<^sup>*\<^sup>* s (stateOf (flushChunks e acc bs lastIndex s))"
proof (induction bs arbitrary: s lastIndex)
  case Nil
  show ?case by simp
next
  case (Cons b bs)
  show ?case
    unfolding flushChunks.simps Let_def
    by (rule andThen_steps) (auto simp: appendNewContent_steps Cons.IH)
qed

lemma set_buffer_steps: "storeStep\<^sup>*\<^sup>* s' (stateOf (Returned (s'\<lparr>accumulatedMarkdown := a\<rparr>)))"
  by (simp add: storeStep.buffer r_into_rtranclp)

lemma overflowFlush_steps: "storeStep\<^sup>*\<^sup>* s (stateOf (overflowFlush e s))"
  unfolding overflowFlush_def Let_def
  by (auto intro!: andThen_steps appendNewContent_steps set_buffer_steps)

lemma processAccumulatedContent_steps:
  "storeStep\<^sup>*\<^sup>* s (stateOf (processAccumulatedContent e s))"
  unfolding processAccumulatedContent_def Let_def
  by (auto intro!: andThen_steps flushChunks_steps set_buffer_steps overflowFlush_steps)

lemma handleCompleted_steps: "storeStep\<^sup>*\<^sup>* s (stateOf (handleCompleted e b s))"
  unfolding handleCompleted_def
  by (auto intro!: andThen_steps appendNewContent_steps set_buffer_steps steps_buffer)

lemma handleContentUpdate_steps:
  assumes "\<not> resets (ContentUpdate nc) s"
  shows "storeStep\<^sup>*\<^sup>* s (stateOf (handleContentUpdate e nc s))"
proof -
  from assms obtain c where c: "nc = Some c" "c \<noteq> []" "\<not> length c < processedLength s"
    by (cases nc) auto
  have cursor: "\<And>s'. storeStep\<^sup>*\<^sup>* s' (stateOf (Returned (s'\<lparr>processedLength := length c\<rparr>)))"
    by (simp add: storeStep.cursor r_into_rtranclp)
  have "storeStep\<^sup>*\<^sup>* s
      (s\<lparr>accumulatedMarkdown := accumulatedMarkdown s @ substringFrom c (int (processedLength s))\<rparr>)"
    by (simp add: storeStep.buffer r_into_rtranclp)
  also have "storeStep\<^sup>*\<^sup>* \<dots> (stateOf (processAccumulatedContent e \<dots>))"
    by (rule processAccumulatedContent_steps)
  finally show ?thesis
    using c unfolding handleContentUpdate_def Let_def
    by (auto intro!: andThen_steps cursor steps_cursor)
qed

lemma fire_steps: "\<not> resets ev s \<Longrightarrow> storeStep\<^sup>*\<^sup>* s (fire e ev s)"
  by (cases ev) (simp_all add: handleContentUpdate_steps handleCompleted_steps)

lemma runEvents_steps: "noResetRun e evs s \<Longrightarrow> storeStep\<^sup>*\<^sup>* s (runEvents e evs s)"
proof (induction evs arbitrary: s)
  case Nil
  show ?case by simp
next
  case (Cons ev evs)
  then have "storeStep\<^sup>*\<^sup>* s (fire e ev s)"
    by (simp add: fire_steps)
  also have "storeStep\<^sup>*\<^sup>* (fire e ev s) (runEvents e evs (fire e ev s))"
    using Cons by simp
  finally show ?case by simp
qed


lemma appendAll_steps: "storeStep\<^sup>*\<^sup>* s (appendAll e cs s)"
proof (induction cs arbitrary: s)
  case Nil
  show ?case by simp
next
  case (Cons c cs)
  have "storeStep\<^sup>*\<^sup>* s (stateOf (appendNewContent e c s))"
    by (rule appendNewContent_steps)
  also have "storeStep\<^sup>*\<^sup>* \<dots> (appendAll e cs \<dots>)"
    by (rule Cons.IH)
  finally show ?case by simp
qed

lemma prefix_butlast_right:
  assumes "prefix xs ys" and "length xs < length ys"
  shows "prefix xs (butlast ys)"
  using assms prefix_length_prefix prefixeq_butlast by fastforce

lemma frozen_step:
  assumes "storeStep s s'" and "k < length (renderBlocks s)"
    and "containsImage (html (renderBlocks s ! k))"
  shows "k < length (renderBlocks s') \<and> renderBlocks s' ! k = renderBlocks s ! k"
  using assms
proof (induction rule: storeStep.induct)
  case (push s h)
  then show ?case by (simp add: pushBlock_def nth_append)
next
  case (rewrite s h)
  from rewrite have "k \<noteq> length (renderBlocks s) - 1"
    by (auto simp: last_conv_nth)
  with rewrite show ?case
    by (simp add: nth_append nth_butlast)
qed simp_all

lemma frozen_steps:
  assumes "storeStep\<^sup>*\<^sup>* s s'" and "k < length (renderBlocks s)"
    and "containsImage (html (renderBlocks s ! k))"
  shows "k < length (renderBlocks s') \<and> renderBlocks s' ! k = renderBlocks s ! k"
  using assms
proof (induction rule: rtranclp_induct)
  case base
  then show ?case by simp
next
  case (step s' s'')
  then have "k < length (renderBlocks s')" and "renderBlocks s' ! k = renderBlocks s ! k"
    by simp_all
  with step.hyps(2) step.prems show ?case
    using frozen_step [of s' s'' k] by simp
qed

lemma ids_step:
  assumes "storeStep s s'"
  shows "prefix (map id_blk (renderBlocks s)) (map id_blk (renderBlocks s'))
         \<and> prefix (butlast (renderBlocks s)) (renderBlocks s')"
  using assms
proof (induction rule: storeStep.induct)
  case (push s h)
  show ?case by (simp add: pushBlock_def prefix_def) (metis append_butlast_last_id append_assoc butlast.simps(1) append_Nil)
next
  case (rewrite s h)
  have "map id_blk (butlast (renderBlocks s) @ [(last (renderBlocks s))\<lparr>html := h\<rparr>])
      = map id_blk (butlast (renderBlocks s) @ [last (renderBlocks s)])"
    by simp
  with rewrite.hyps(1) show ?case by simp
next
  case (bump s)
  show ?case by (simp add: prefix_def) (metis append_butlast_last_id butlast.simps(1) append_Nil2)
next
  case (buffer s a)
  show ?case by (simp add: prefix_def) (metis append_butlast_last_id butlast.simps(1) append_Nil2)
next
  case (cursor s n)
  show ?case by (simp add: prefix_def) (metis append_butlast_last_id butlast.simps(1) append_Nil2)
qed


lemma ids_steps:
  assumes "storeStep\<^sup>*\<^sup>* s s'"
  shows "prefix (map id_blk (renderBlocks s)) (map id_blk (renderBlocks s'))
         \<and> prefix (butlast (renderBlocks s)) (renderBlocks s')"
  using assms
proof (induction rule: rtranclp_induct)
  case base
  show ?case by (simp add: prefixeq_butlast)
next
  case (step s' s'')
  from step.hyps(2) have ids': "prefix (map id_blk (renderBlocks s')) (map id_blk (renderBlocks s''))"
      and rest': "prefix (butlast (renderBlocks s')) (renderBlocks s'')"
    using ids_step by simp_all
  from step.IH have ids: "prefix (map id_blk (renderBlocks s)) (map id_blk (renderBlocks s'))"
      and rest: "prefix (butlast (renderBlocks s)) (renderBlocks s')"
    by simp_all
  have "prefix (butlast (renderBlocks s)) (butlast (renderBlocks s'))"
  proof (cases "renderBlocks s = []")
    case True
    then show ?thesis by simp
  next
    case False
    from ids have "length (renderBlocks s) \<le> length (renderBlocks s')"
      using prefix_length_le by fastforce
    moreover from False have "length (butlast (renderBlocks s)) < length (renderBlocks s)"
      by simp
    ultimately have "length (butlast (renderBlocks s)) < length (renderBlocks s')"
      by (rule less_le_trans [rotated])
    with rest show ?thesis
      by (rule prefix_butlast_right)
  qed
  from this rest' have "prefix (butlast (renderBlocks s)) (renderBlocks s'')"
    by (rule prefix_order.trans)
  moreover from ids ids' have "prefix (map id_blk (renderBlocks s)) (map id_blk (renderBlocks s''))"
    by (rule prefix_order.trans)
  ultimately show ?case by simp
qed

lemma mergeBlocks_id: "mergeBlocks L b = Some m \<Longrightarrow> id_blk m = id_blk L"
  by (metis mergeBlocks_html_only renderBlock.select_convs(1) renderBlock.surjective
      renderBlock.update_convs(2))

lemma wellNumbered_fire: "wellNumbered s \<Longrightarrow> wellNumbered (fire e ev s)"
proof (cases "resets ev s")
  case False
  assume "wellNumbered s"
  with False show ?thesis
    using fire_steps wellNumbered_steps by blast
next
  case True
  assume wn: "wellNumbered s"
  from True obtain nc where ev: "ev = ContentUpdate nc"
    by (cases ev) auto
  show ?thesis
  proof (cases "nc = None \<or> nc = Some []")
    case True
    then show ?thesis
      using ev by (auto simp: handleContentUpdate_def resetComponent_init wellNumbered_init)
  next
    case False
    then obtain c where c: "nc = Some c" "c \<noteq> []" by auto
    with True ev have short: "length c < processedLength s" by simp
    have "storeStep\<^sup>*\<^sup>* initComponent (stateOf (handleContentUpdate e (Some c) initComponent))"
      using c by (intro handleContentUpdate_steps) (simp add: initComponent_def)
    then have "wellNumbered (stateOf (handleContentUpdate e (Some c) initComponent))"
      using wellNumbered_init by (rule wellNumbered_steps)
    moreover have "handleContentUpdate e (Some c) s = handleContentUpdate e (Some c) initComponent"
      using short c by (simp add: handleContentUpdate_def resetComponent_init Let_def)
    ultimately show ?thesis using ev c by simp
  qed
qed

lemma wellNumbered_reachable: "wellNumbered (runEvents e evs initComponent)"
proof -
  have "wellNumbered s \<Longrightarrow> wellNumbered (runEvents e evs s)" for s
    by (induction evs arbitrary: s) (simp_all add: wellNumbered_fire)
  then show ?thesis by (simp add: wellNumbered_init)
qed

text \<open>
  Claim C3. In a run of events without a reset, from a component whose identifiers are well
  numbered: the identifiers of the blocks stored at the start are, in the same order, the
  first identifiers of the store at the end; every block stored at the start other than the
  last one is unchanged; the identifiers of the store are distinct; and a merge returns the
  last block with its identifier, only the \<open>html\<close> differs.
\<close>

theorem identifiers_stable_append_only:
  assumes "wellNumbered s" and "noResetRun e evs s"
  shows "prefix (map id_blk (renderBlocks s)) (map id_blk (renderBlocks (runEvents e evs s)))
       \<and> prefix (butlast (renderBlocks s)) (renderBlocks (runEvents e evs s))
       \<and> distinct (map id_blk (renderBlocks (runEvents e evs s)))
       \<and> (\<forall>lastBlock currentHtml merged.
             mergeBlocks lastBlock currentHtml = Some merged \<longrightarrow> id_blk merged = id_blk lastBlock)"
proof -
  from assms(2) have steps: "storeStep\<^sup>*\<^sup>* s (runEvents e evs s)"
    by (rule runEvents_steps)
  then have "wellNumbered (runEvents e evs s)"
    using assms(1) by (rule wellNumbered_steps)
  then have "distinct (map id_blk (renderBlocks (runEvents e evs s)))"
    by (rule wellNumbered_distinct)
  with ids_steps [OF steps] show ?thesis
    by (auto dest: mergeBlocks_id)
qed

text \<open>
  Claim C2. A stored block whose html contains an image is unchanged, at the same place,
  after any sequence of calls of \<open>appendNewContent\<close> and after any run of events without a
  reset. When the last block contains an image, a new block that is not blank is pushed
  under the identifier of the counter, whatever \<open>shouldMergeBlocks\<close> says; that identifier
  is not the identifier of a stored block.
\<close>

theorem image_block_frozen:
  assumes "k < length (renderBlocks s)" and "containsImage (html (renderBlocks s ! k))"
  shows "(k < length (renderBlocks (appendAll e chunks s))
          \<and> renderBlocks (appendAll e chunks s) ! k = renderBlocks s ! k)
       \<and> (noResetRun e evs s \<longrightarrow>
            k < length (renderBlocks (runEvents e evs s))
            \<and> renderBlocks (runEvents e evs s) ! k = renderBlocks s ! k)
       \<and> (k = length (renderBlocks s) - 1 \<and> trim b \<noteq> [] \<longrightarrow> appendBlock s b = pushBlock s b)
       \<and> (wellNumbered s \<longrightarrow>
            id_blk (last (renderBlocks (pushBlock s b))) \<notin> set (map id_blk (renderBlocks s)))"
proof (intro conjI impI)
  show "k < length (renderBlocks (appendAll e chunks s))"
    and "renderBlocks (appendAll e chunks s) ! k = renderBlocks s ! k"
    using frozen_steps [OF appendAll_steps assms] by simp_all
next
  assume "noResetRun e evs s"
  then have "storeStep\<^sup>*\<^sup>* s (runEvents e evs s)"
    by (rule runEvents_steps)
  from frozen_steps [OF this assms]
  show "k < length (renderBlocks (runEvents e evs s))"
    and "renderBlocks (runEvents e evs s) ! k = renderBlocks s ! k"
    by simp_all
next
  assume "k = length (renderBlocks s) - 1 \<and> trim b \<noteq> []"
  moreover from assms(1) have "renderBlocks s \<noteq> []"
    by auto
  ultimately have "containsImage (html (last (renderBlocks s)))" and "trim b \<noteq> []"
    using assms(2) by (simp_all add: last_conv_nth)
  then show "appendBlock s b = pushBlock s b"
    by (simp add: appendBlock_def)
next
  assume "wellNumbered s"
  then have "mdBlockId (blockCounter s) \<notin> set (map id_blk (renderBlocks s))"
    by (rule wellNumbered_fresh) simp
  then show "id_blk (last (renderBlocks (pushBlock s b))) \<notin> set (map id_blk (renderBlocks s))"
    by (simp add: pushBlock_def)
qed

text \<open>
  Claim C8, as amended. When the converter or the sanitizer throws on a chunk and the
  sanitizer returns on the raw text of the chunk, \<open>appendNewContent\<close> returns: the sanitized
  raw text is pushed as a new block under the identifier of the counter, which no stored
  block has.
\<close>

theorem conversion_failure_appends_raw_block:
  assumes failure: "marked e chunk = None \<or> (\<exists>h. marked e chunk = Some h \<and> sanitize e h = None)"
    and plain: "sanitizePlain e chunk = Some raw"
  shows "appendNewContent e chunk s =
           Returned (s\<lparr>renderBlocks :=
                        renderBlocks s @ [\<lparr>id_blk = mdBlockId (blockCounter s), html = raw\<rparr>],
                      blockCounter := blockCounter s + 1\<rparr>)
         \<and> (wellNumbered s \<longrightarrow>
              mdBlockId (blockCounter s) \<notin> set (map id_blk (renderBlocks s)))"
proof
  from failure plain
  show "appendNewContent e chunk s =
           Returned (s\<lparr>renderBlocks :=
                        renderBlocks s @ [\<lparr>id_blk = mdBlockId (blockCounter s), html = raw\<rparr>],
                      blockCounter := blockCounter s + 1\<rparr>)"
    by (auto simp: appendNewContent_def appendFallback_def pushBlock_def)
next
  show "wellNumbered s \<longrightarrow> mdBlockId (blockCounter s) \<notin> set (map id_blk (renderBlocks s))"
    by (simp add: wellNumbered_fresh del: set_map)
qed

text \<open>
  Claim C8 as stated fails when the sanitizer throws on the raw text too: the error leaves
  \<open>appendNewContent\<close> and \<open>handleContentUpdate\<close>, the counter is incremented and no block
  is stored.
\<close>

theorem fallback_sanitizer_failure_propagates:
  "marked throwingEnv (js ''# a\<newline>'') = None
   \<and> appendNewContent throwingEnv (js ''# a\<newline>'') initComponent
       = Thrown \<lparr>renderBlocks = [], processedLength = 0, blockCounter = 1, accumulatedMarkdown = []\<rparr>
   \<and> handleContentUpdate throwingEnv (Some (js ''# a\<newline>'')) initComponent
       = Thrown \<lparr>renderBlocks = [], processedLength = 0, blockCounter = 1,
                 accumulatedMarkdown = js ''# a\<newline>''\<rparr>"
  by (simp add: accumulate_defs detect_defs render_defs string_defs Let_def)

theorem conversion_failure_appends_raw_block_witness:
  "(marked failingConverterEnv (js ''# a\<newline>'') = None
      \<or> (\<exists>h. marked failingConverterEnv (js ''# a\<newline>'') = Some h
               \<and> sanitize failingConverterEnv h = None))
   \<and> sanitizePlain failingConverterEnv (js ''# a\<newline>'') = Some (js ''# a\<newline>'')
   \<and> wellNumbered imageStore
   \<and> appendNewContent failingConverterEnv (js ''# a\<newline>'') imageStore
       = Returned \<lparr>renderBlocks = [\<lparr>id_blk = mdBlockId 0, html = js ''<p>Look<IMG src=x></p>''\<rparr>,
                                     \<lparr>id_blk = mdBlockId 1, html = js ''# a\<newline>''\<rparr>],
                    processedLength = 0, blockCounter = 2, accumulatedMarkdown = []\<rparr>
   \<and> mdBlockId 1 \<notin> set (map id_blk (renderBlocks imageStore))"
proof -
  have wn: "wellNumbered imageStore"
    unfolding wellNumbered_def by (rule exI [of _ "[0]"]) (simp add: imageStore_def)
  have f: "marked failingConverterEnv (js ''# a\<newline>'') = None
      \<or> (\<exists>h. marked failingConverterEnv (js ''# a\<newline>'') = Some h
               \<and> sanitize failingConverterEnv h = None)"
    by (simp add: failingConverterEnv_def)
  have p: "sanitizePlain failingConverterEnv (js ''# a\<newline>'') = Some (js ''# a\<newline>'')"
    by (simp add: failingConverterEnv_def)
  from conversion_failure_appends_raw_block [OF f p, of imageStore] wn f p
  show ?thesis
    by (simp add: imageStore_def)
qed

theorem image_block_frozen_witness:
  "0 < length (renderBlocks imageStore)
   \<and> containsImage (html (renderBlocks imageStore ! 0))
   \<and> shouldMergeBlocks (html (renderBlocks imageStore ! 0)) (js ''<p>more</p>'')
   \<and> renderBlocks (appendAll echoEnv [js ''<p>more</p>''] imageStore) ! 0
       = \<lparr>id_blk = mdBlockId 0, html = js ''<p>Look<IMG src=x></p>''\<rparr>
   \<and> noResetRun echoEnv [ContentUpdate (Some (js ''<p>more</p>\<newline>\<newline>''))] imageStore
   \<and> renderBlocks (runEvents echoEnv [ContentUpdate (Some (js ''<p>more</p>\<newline>\<newline>''))] imageStore) ! 0
       = \<lparr>id_blk = mdBlockId 0, html = js ''<p>Look<IMG src=x></p>''\<rparr>
   \<and> 0 = length (renderBlocks imageStore) - 1
   \<and> trim (js ''<p>more</p>'') \<noteq> []
   \<and> appendBlock imageStore (js ''<p>more</p>'')
       = \<lparr>renderBlocks = [\<lparr>id_blk = mdBlockId 0, html = js ''<p>Look<IMG src=x></p>''\<rparr>,
                            \<lparr>id_blk = mdBlockId 1, html = js ''<p>more</p>''\<rparr>],
          processedLength = 0, blockCounter = 2, accumulatedMarkdown = []\<rparr>
   \<and> wellNumbered imageStore
   \<and> mdBlockId 1 \<notin> set (map id_blk (renderBlocks imageStore))"
proof -
  have k: "0 < length (renderBlocks imageStore)"
    by (simp add: imageStore_def)
  have img: "containsImage (html (renderBlocks imageStore ! 0))"
    by (simp add: imageStore_def containsImage_def html_defs string_defs)
  have merge: "shouldMergeBlocks (html (renderBlocks imageStore ! 0)) (js ''<p>more</p>'')"
    by (simp add: imageStore_def merge_defs html_defs string_defs)
  have run: "noResetRun echoEnv [ContentUpdate (Some (js ''<p>more</p>\<newline>\<newline>''))] imageStore"
    by (simp add: imageStore_def)
  have last: "0 = length (renderBlocks imageStore) - 1"
    by (simp add: imageStore_def)
  have nonblank: "trim (js ''<p>more</p>'') \<noteq> []"
    by (simp add: string_defs)
  have wn: "wellNumbered imageStore"
    unfolding wellNumbered_def by (rule exI [of _ "[0]"]) (simp add: imageStore_def)
  note frozen = image_block_frozen [OF k img, of echoEnv "[js ''<p>more</p>'']"
      "[ContentUpdate (Some (js ''<p>more</p>\<newline>\<newline>''))]" "js ''<p>more</p>''"]
  from frozen run have "renderBlocks (appendAll echoEnv [js ''<p>more</p>''] imageStore) ! 0
       = renderBlocks imageStore ! 0"
    and "renderBlocks (runEvents echoEnv [ContentUpdate (Some (js ''<p>more</p>\<newline>\<newline>''))] imageStore) ! 0
       = renderBlocks imageStore ! 0"
    by simp_all
  moreover from frozen last nonblank
  have "appendBlock imageStore (js ''<p>more</p>'') = pushBlock imageStore (js ''<p>more</p>'')"
    by simp
  moreover from frozen wn
  have "id_blk (last (renderBlocks (pushBlock imageStore (js ''<p>more</p>''))))
      \<notin> set (map id_blk (renderBlocks imageStore))"
    by simp
  ultimately show ?thesis
    using k img merge run last nonblank wn
    by (simp add: imageStore_def pushBlock_def)
qed

theorem identifiers_stable_append_only_witness:
  "wellNumbered paragraphStore
   \<and> noResetRun echoEnv
       [ContentUpdate (Some (js ''<p>a</p>\<newline>\<newline><p>b</p>\<newline>\<newline># T\<newline>''))] paragraphStore
   \<and> runEvents echoEnv
       [ContentUpdate (Some (js ''<p>a</p>\<newline>\<newline><p>b</p>\<newline>\<newline># T\<newline>''))] paragraphStore
     = \<lparr>renderBlocks = [\<lparr>id_blk = mdBlockId 0, html = js ''<p>ab</p>''\<rparr>,
                          \<lparr>id_blk = mdBlockId 1, html = js ''# T\<newline>''\<rparr>],
        processedLength = 24, blockCounter = 2, accumulatedMarkdown = []\<rparr>
   \<and> prefix (map id_blk (renderBlocks paragraphStore)) [mdBlockId 0, mdBlockId 1]
   \<and> prefix (butlast (renderBlocks paragraphStore))
        [\<lparr>id_blk = mdBlockId 0, html = js ''<p>ab</p>''\<rparr>, \<lparr>id_blk = mdBlockId 1, html = js ''# T\<newline>''\<rparr>]
   \<and> distinct [mdBlockId 0, mdBlockId 1]"
proof -
  let ?evs = "[ContentUpdate (Some (js ''<p>a</p>\<newline>\<newline><p>b</p>\<newline>\<newline># T\<newline>''))]"
  have wn: "wellNumbered paragraphStore"
    unfolding wellNumbered_def by (rule exI [of _ "[0]"]) (simp add: paragraphStore_def)
  have run: "noResetRun echoEnv ?evs paragraphStore"
    by (simp add: paragraphStore_def)
  have result: "runEvents echoEnv ?evs paragraphStore
     = \<lparr>renderBlocks = [\<lparr>id_blk = mdBlockId 0, html = js ''<p>ab</p>''\<rparr>,
                          \<lparr>id_blk = mdBlockId 1, html = js ''# T\<newline>''\<rparr>],
        processedLength = 24, blockCounter = 2, accumulatedMarkdown = []\<rparr>"
    by (simp add: paragraphStore_def accumulate_defs detect_defs render_defs split_defs
        merge_defs html_defs string_defs Let_def)
  from identifiers_stable_append_only [OF wn run] result wn run
  show ?thesis
    by simp
qed

section \<open>A blank line inside a list\<close>







section \<open>Text outside the blocks of the splitter\<close>







lemma splitLoop_reach:
  "splitReach h i st \<Longrightarrow> \<exists>j. splitReach h j (splitLoop h i st) \<and> length h \<le> j"
proof (induction h i st rule: splitLoop.induct)
  case (1 h i st)
  show ?case
  proof (cases "i < length h")
    case True
    obtain st' i' where s: "splitStep h i st = (st', i')"
      by (cases "splitStep h i st")
    with True "1.prems" have "splitReach h i' st'"
      by (auto intro: splitReach.step)
    with "1.IH" True s have "\<exists>j. splitReach h j (splitLoop h i' st') \<and> length h \<le> j"
      by simp
    with True s show ?thesis
      by (subst splitLoop.simps) simp
  next
    case False
    with "1.prems" show ?thesis
      by (subst splitLoop.simps) auto
  qed
qed





section \<open>Merging paragraphs\<close>

lemma anywhere_iff: "anywhere P s \<longleftrightarrow> (\<exists>k \<le> length s. P (drop k s))"
proof (induction s)
  case Nil
  show ?case by simp
next
  case (Cons c cs)
  show ?case
  proof
    assume "anywhere P (c # cs)"
    then consider "P (c # cs)" | "anywhere P cs" by auto
    then show "\<exists>k \<le> length (c # cs). P (drop k (c # cs))"
    proof cases
      case 1
      then have "P (drop 0 (c # cs))" by simp
      then show ?thesis by blast
    next
      case 2
      with Cons obtain k where "k \<le> length cs" "P (drop k cs)" by auto
      then have "Suc k \<le> length (c # cs)" "P (drop (Suc k) (c # cs))" by simp_all
      then show ?thesis by blast
    qed
  next
    assume "\<exists>k \<le> length (c # cs). P (drop k (c # cs))"
    then obtain k where k: "k \<le> length (c # cs)" "P (drop k (c # cs))" by auto
    show "anywhere P (c # cs)"
    proof (cases k)
      case 0
      with k show ?thesis by simp
    next
      case (Suc j)
      with k have "j \<le> length cs" "P (drop j cs)" by simp_all
      with Cons show ?thesis by auto
    qed
  qed
qed

lemma dropWsEnd_append_ws:
  assumes "\<forall>c \<in> set w. isWs c" and "y = [] \<or> \<not> isWs (last y)"
  shows "dropWsEnd (y @ w) = y"
proof -
  have "dropWhile isWs (rev w @ rev y) = dropWhile isWs (rev y)"
    by (rule dropWhile_append2) (use assms(1) in auto)
  also have "\<dots> = rev y"
    using assms(2) by (cases y rule: rev_cases) simp_all
  finally show ?thesis
    by (simp add: dropWsEnd_def)
qed

lemma trim_core:
  assumes "\<forall>c \<in> set wl. isWs c" and "\<forall>c \<in> set wr. isWs c"
    and "core \<noteq> []" and "\<not> isWs (hd core)" and "\<not> isWs (last core)"
  shows "trim (wl @ core @ wr) = core"
proof -
  have "dropWhile isWs (wl @ core @ wr) = dropWhile isWs (core @ wr)"
    by (rule dropWhile_append2) (use assms(1) in auto)
  also have "\<dots> = core @ wr"
    using assms(3,4) by (cases core) simp_all
  finally show ?thesis
    using assms(2,5) by (simp add: trim_def dropWsEnd_append_ws)
qed

lemma pSpan_ends: "pSpan attrs inner \<noteq> []" "hd (pSpan attrs inner) = 60"
  "last (pSpan attrs inner) = 62"
  by (simp_all add: pSpan_def)

lemma trim_pSpan:
  assumes "allWs wl" and "allWs wr"
  shows "trim (wl @ pSpan attrs inner @ wr) = pSpan attrs inner"
  using assms
  by (intro trim_core) (simp_all add: allWs_def list_all_iff pSpan_ends isWs_def)

lemma isParagraphBlock_pSpan:
  assumes "allWs wl" and "allWs wr" and "attrsOk attrs"
  shows "isParagraphBlock (wl @ pSpan attrs inner @ wr)"
proof -
  have open_tag: "openTagAt False [js ''p''] (pSpan attrs inner)"
    using assms(3)
    by (cases attrs) (auto simp: openTagAt_def startsWith_def tagRest_def pSpan_def attrsOk_def)
  have "dropWsEnd (pSpan attrs inner) = pSpan attrs inner"
    using dropWsEnd_append_ws [of "[]" "pSpan attrs inner"] by (simp add: pSpan_ends isWs_def)
  then have close_tag: "closeTagAtEnd False [js ''p''] (pSpan attrs inner)"
    by (simp add: closeTagAtEnd_def startsWith_def) (simp add: pSpan_def)
  from open_tag close_tag show ?thesis
    by (simp add: isParagraphBlock_def trim_pSpan [OF assms(1,2)] pSpan_ends)
qed

lemma stripCloseEnd_p:
  assumes "\<forall>c \<in> set w. isWs c"
  shows "stripCloseEnd False (js ''p'') (x @ js ''</p>'' @ w) = x"
proof -
  have d: "dropWsEnd (x @ js ''</p>'' @ w) = x @ js ''</p>''"
    using dropWsEnd_append_ws [OF assms, of "x @ js ''</p>''"] by (simp add: isWs_def)
  then have "closeTagAtEnd False [js ''p''] (x @ js ''</p>'' @ w)"
    by (simp add: closeTagAtEnd_def startsWith_def)
  with d show ?thesis
    by (simp add: stripCloseEnd_def)
qed

lemma stripOpenStart_p:
  assumes "62 \<notin> set attrs"
  shows "stripOpenStart False (js ''p'') (js ''<p'' @ attrs @ js ''>'' @ r) = r"
proof -
  have "dropWhile (\<lambda>c. c \<noteq> 62) (attrs @ 62 # r) = dropWhile (\<lambda>c. c \<noteq> 62) (62 # r)"
    by (rule dropWhile_append2) (use assms in auto)
  then have "dropWhile (\<lambda>c. c \<noteq> 62) (attrs @ 62 # r) = 62 # r"
    by simp
  then show ?thesis
    by (simp add: stripOpenStart_def startsWith_def)
qed

lemma merged_pSpan:
  assumes "allWs wr" and "allWs wB" and "attrsOk attrsB"
  shows "stripCloseEnd False (js ''p'') (wl @ pSpan attrsL innerL @ wr)
         @ stripCloseEnd False (js ''p'') (stripOpenStart False (js ''p'') (pSpan attrsB innerB @ wB))
         @ js ''</p>''
         = wl @ pSpan attrsL (innerL @ innerB)"
proof -
  have wr: "\<forall>c \<in> set wr. isWs c" and wB: "\<forall>c \<in> set wB. isWs c"
    using assms(1,2) by (simp_all add: allWs_def list_all_iff)
  have "stripCloseEnd False (js ''p'') (wl @ pSpan attrsL innerL @ wr)
      = wl @ js ''<p'' @ attrsL @ js ''>'' @ innerL"
    using stripCloseEnd_p [OF wr, of "wl @ js ''<p'' @ attrsL @ js ''>'' @ innerL"]
    by (simp add: pSpan_def)
  moreover have "stripOpenStart False (js ''p'') (pSpan attrsB innerB @ wB)
      = innerB @ js ''</p>'' @ wB"
    using stripOpenStart_p [of attrsB "innerB @ js ''</p>'' @ wB"] assms(3)
    by (simp add: pSpan_def attrsOk_def)
  moreover have "stripCloseEnd False (js ''p'') (innerB @ js ''</p>'' @ wB) = innerB"
    by (rule stripCloseEnd_p [OF wB])
  ultimately show ?thesis
    by (simp add: pSpan_def)
qed


lemma dropWsEnd_idem: "dropWsEnd (dropWsEnd y) = dropWsEnd y"
  by (simp add: dropWsEnd_def)

lemma dropWsEnd_trim: "dropWsEnd (trim x) = trim x"
  by (simp add: trim_def dropWsEnd_idem)

lemma endsWithMark_trim:
  "endsWithMark (trim x) \<longleftrightarrow> trim x \<noteq> [] \<and> last (trim x) \<in> set sentenceMarks"
  unfolding endsWithMark_def dropWsEnd_trim
  by (cases "trim x" rule: rev_cases) simp_all

lemma trim_decomp:
  "\<exists>wl wr. L = wl @ trim L @ wr \<and> (\<forall>c \<in> set wl. isWs c) \<and> (\<forall>c \<in> set wr. isWs c)"
proof -
  let ?D = "dropWhile isWs L"
  let ?W = "rev (takeWhile isWs (rev ?D))"
  have "rev (dropWhile isWs (rev ?D)) @ ?W
      = rev (takeWhile isWs (rev ?D) @ dropWhile isWs (rev ?D))"
    by (simp only: rev_append)
  also have "\<dots> = ?D"
    by (simp only: takeWhile_dropWhile_id rev_rev_ident)
  finally have "?D = trim L @ ?W"
    by (simp only: trim_def dropWsEnd_def)
  moreover have "L = takeWhile isWs L @ ?D"
    by simp
  ultimately have "L = takeWhile isWs L @ trim L @ ?W"
    by simp
  moreover have "\<forall>c \<in> set (takeWhile isWs L). isWs c"
    by (auto dest: set_takeWhileD)
  moreover have "\<forall>c \<in> set ?W. isWs c"
    by (auto dest: set_takeWhileD)
  ultimately show ?thesis
    by blast
qed

lemma paragraph_tail:
  assumes "isParagraphBlock L"
  shows "\<exists>A W. L = A @ 62 # W \<and> (\<forall>c \<in> set W. isWs c)"
proof -
  from assms have "take 4 (rev (trim L)) = rev (js ''</p>'')"
    by (simp add: isParagraphBlock_def closeTagAtEnd_def startsWith_def dropWsEnd_trim
        eval_nat_numeral)
  then obtain rest where "rev (trim L) = 62 # rest"
    by (cases "rev (trim L)") auto
  then have t: "trim L = rev rest @ [62]"
    by (simp add: rev_swap [symmetric])
  from trim_decomp [of L] obtain wl wr
    where "L = wl @ trim L @ wr" and wr: "\<forall>c \<in> set wr. isWs c"
    by blast
  with t have "L = (wl @ rev rest) @ 62 # wr"
    by simp
  with wr show ?thesis
    by blast
qed

lemma paragraph_img_containsImage:
  assumes para: "isParagraphBlock L" and img: "anywhere (startsWith False (js ''<img'')) L"
  shows "containsImage L"
proof -
  from img obtain k where k: "take 4 (drop k L) = js ''<img''"
    by (auto simp: anywhere_iff startsWith_def eval_nat_numeral)
  then have "length (take 4 (drop k L)) = 4"
    by simp
  then have len: "k + 4 \<le> length L"
    by simp
  from k have "take 4 (drop k L) ! 3 = 103"
    by simp
  with len have g: "L ! (k + 3) = 103"
    by simp
  from paragraph_tail [OF para] obtain A W where L: "L = A @ 62 # W" and W: "\<forall>c \<in> set W. isWs c"
    by blast
  have "k + 3 < length A"
  proof (rule ccontr)
    assume "\<not> k + 3 < length A"
    then consider "k + 3 = length A" | "length A < k + 3"
      by linarith
    then show False
    proof cases
      case 1
      with g L show False by (simp add: nth_append)
    next
      case 2
      with len L have "k + 3 - length A - 1 < length W"
        by simp
      then have "W ! (k + 3 - length A - 1) \<in> set W"
        by (rule nth_mem)
      moreover from 2 g L have "W ! (k + 3 - length A - 1) = 103"
        by (simp add: nth_append nth_Cons')
      ultimately show False
        using W by (auto simp: isWs_def)
    qed
  qed
  with L have "62 \<in> set (drop 4 (drop k L))"
    by simp
  moreover from k have "map lowerChar (take 4 (drop k L)) = js ''<img''"
    by (simp add: lowerChar_def)
  then have "startsWith True (js ''<img'') (drop k L)"
    by (simp add: startsWith_def eval_nat_numeral)
  moreover from len have "k \<le> length L"
    by simp
  ultimately have "anywhere (\<lambda>s. startsWith True (js ''<img'') s \<and> 62 \<in> set (drop 4 s)) L"
    unfolding anywhere_iff by blast
  moreover from len have "L \<noteq> []"
    by auto
  ultimately show ?thesis
    by (simp add: containsImage_def)
qed

lemma paragraph_not_blank: "isParagraphBlock b \<Longrightarrow> trim b \<noteq> [] \<and> b \<noteq> []"
  by (auto simp: isParagraphBlock_def openTagAt_def startsWith_def)

lemma shouldMerge_paragraphs:
  assumes "isParagraphBlock L" and "isParagraphBlock b"
  shows "shouldMergeBlocks L b \<and> \<not> containsImage L \<longleftrightarrow>
           \<not> (trim (stripTags L) \<noteq> [] \<and> last (trim (stripTags L)) \<in> set sentenceMarks)
           \<and> \<not> containsImage L"
proof -
  from assms have "L \<noteq> []" "b \<noteq> []"
    by (simp_all add: paragraph_not_blank)
  with assms have "shouldMergeBlocks L b \<longleftrightarrow>
      \<not> (endsWithMark (trim (stripTags L)) \<or> anywhere (startsWith False (js ''<img'')) L)"
    by (simp add: shouldMergeBlocks_def isParagraphComplete_def)
  with paragraph_img_containsImage [OF assms(1)] show ?thesis
    by (auto simp: endsWithMark_trim)
qed

section \<open>Paragraph blocks of the splitter\<close>

text \<open>
  A block that the splitter outputs is a trimmed text, a text cut at the \<open><\<close> of a
  top-level tag, or the whole input when the loop found nothing; and on an input that is a
  paragraph block the loop finds the opening tag. So a paragraph block of the splitter
  starts with its opening tag, which \<open>mergeBlocks\<close> strips.
\<close>

lemma dropWsEnd_hd:
  assumes "dropWsEnd y \<noteq> []"
  shows "hd (dropWsEnd y) = hd y"
proof -
  have "y = dropWsEnd y @ rev (takeWhile isWs (rev y))"
  proof -
    have "dropWsEnd y @ rev (takeWhile isWs (rev y))
        = rev (takeWhile isWs (rev y) @ dropWhile isWs (rev y))"
      by (simp only: dropWsEnd_def rev_append)
    also have "\<dots> = y"
      by (simp only: takeWhile_dropWhile_id rev_rev_ident)
    finally show ?thesis by simp
  qed
  with assms show ?thesis
    by (metis hd_append2)
qed

lemma trim_hd:
  assumes "trim x \<noteq> []"
  shows "\<not> isWs (hd (trim x))"
proof -
  from assms have "dropWhile isWs x \<noteq> []"
    by (auto simp: trim_def dropWsEnd_def dest: set_dropWhileD)
  then have "\<not> isWs (hd (dropWhile isWs x))"
    by (rule hd_dropWhile)
  moreover from assms have "hd (trim x) = hd (dropWhile isWs x)"
    unfolding trim_def by (rule dropWsEnd_hd)
  ultimately show ?thesis by simp
qed

lemma pushPrevBlock_clean:
  assumes "list_all (\<lambda>x. x \<noteq> [] \<and> \<not> isWs (hd x)) bl"
  shows "list_all (\<lambda>x. x \<noteq> [] \<and> \<not> isWs (hd x)) (pushPrevBlock h i cbs bl)"
  using assms by (simp add: pushPrevBlock_def Let_def trim_hd)

lemma substring_from_tag:
  assumes "a < length h" and "h ! a = 60" and "a < b"
  shows "substring h (int a) (int b) \<noteq> [] \<and> \<not> isWs (hd (substring h (int a) (int b)))"
proof -
  from assms have "substring h (int a) (int b) = take (min b (length h) - a) (drop a h)"
    by (simp add: substring_def clampIdx_def Let_def min_def max_def)
  moreover from assms have "0 < min b (length h) - a"
    by simp
  ultimately show ?thesis
    using assms by (cases "min b (length h) - a") (simp_all add: hd_drop_conv_nth take_Suc isWs_def)
qed

lemma startTagMatch_len:
  assumes "startTagMatch s = Some (name, l)"
  shows "0 < l"
  using assms
  by (auto simp: startTagMatch_def Let_def split: list.splits if_splits)

lemma clean_start_tag:
  assumes inv: "blocksStartClean h i st" and less: "i < length h"
    and at: "h ! i = 60"
    and p: "processStartTag h i st = (r, st')"
  shows "case r of None \<Rightarrow> blocksStartClean h (i + 1) st'
         | Some (cbs, nextIndex) \<Rightarrow> blocksStartClean h nextIndex (st'\<lparr>currentBlockStart := cbs\<rparr>)"
proof (cases "startTagMatch (drop i h)")
  case None
  with p inv show ?thesis
    by (auto simp: processStartTag_def blocksStartClean_def)
next
  case (Some m)
  obtain name l where m: "m = (name, l)"
    by (cases m)
  from Some m have l: "0 < l"
    by (auto dest: startTagMatch_len)
  from inv have cl: "list_all (\<lambda>x. x \<noteq> [] \<and> \<not> isWs (hd x)) (blocks st)"
    by (simp add: blocksStartClean_def)
  note push = pushPrevBlock_clean [OF cl, of h i "currentBlockStart st"]
  from less at l have tag: "substring h (int i) (int (i + l)) \<noteq> []
      \<and> \<not> isWs (hd (substring h (int i) (int (i + l))))"
    by (intro substring_from_tag) simp_all
  show ?thesis
    using p Some m inv push tag less at
    by (auto simp: processStartTag_def handleSelfClosingBlock_def handleNonSelfClosingBlock_def
        blocksStartClean_def Let_def split: if_splits)
qed

lemma clean_close_tag:
  assumes inv: "blocksStartClean h i st" and less: "i < length h"
    and p: "processCloseTag h i st = (r, st')"
  shows "case r of None \<Rightarrow> blocksStartClean h (i + 1) st'
         | Some cbs \<Rightarrow> blocksStartClean h (i + 1) (st'\<lparr>currentBlockStart := cbs\<rparr>)"
proof (cases "0 \<le> currentBlockStart st")
  case False
  with p inv show ?thesis
    by (auto simp: processCloseTag_def blocksStartClean_def Let_def
        split: option.splits if_splits)
next
  case True
  with inv have c: "currentBlockStart st < int i" "nat (currentBlockStart st) < length h"
      "h ! nat (currentBlockStart st) = 60"
    by (simp_all add: blocksStartClean_def)
  have "substring h (int (nat (currentBlockStart st))) (int (i + l)) \<noteq> []
      \<and> \<not> isWs (hd (substring h (int (nat (currentBlockStart st))) (int (i + l))))" for l
    using c True by (intro substring_from_tag) simp_all
  with True have blk: "substring h (currentBlockStart st) (int (i + l)) \<noteq> []
      \<and> \<not> isWs (hd (substring h (currentBlockStart st) (int (i + l))))" for l
    by simp
  show ?thesis
    using p inv blk c True
    by (auto simp: processCloseTag_def blocksStartClean_def Let_def
        split: option.splits if_splits)
qed

lemma clean_step:
  assumes inv: "blocksStartClean h i st" and less: "i < length h"
    and s: "splitStep h i st = (st', i')"
  shows "blocksStartClean h i' st'"
proof -
  consider (open_tag) "charAt h i = Some 60 \<and> charAt h (i + 1) \<noteq> Some 47 \<and> charAt h (i + 1) \<noteq> Some 33"
    | (close_tag) "charAt h i = Some 60 \<and> charAt h (i + 1) = Some 47"
    | (other) "\<not> (charAt h i = Some 60 \<and> charAt h (i + 1) \<noteq> Some 47 \<and> charAt h (i + 1) \<noteq> Some 33)"
        "\<not> (charAt h i = Some 60 \<and> charAt h (i + 1) = Some 47)"
    by blast
  then show ?thesis
  proof cases
    case open_tag
    obtain r st1 where p: "processStartTag h i st = (r, st1)"
      by (cases "processStartTag h i st")
    from open_tag less have "h ! i = 60"
      by (simp add: charAt_def)
    from clean_start_tag [OF inv less this p] open_tag p s show ?thesis
      by (auto simp: splitStep_def split: option.splits prod.splits)
  next
    case close_tag
    obtain r st1 where p: "processCloseTag h i st = (r, st1)"
      by (cases "processCloseTag h i st")
    from clean_close_tag [OF inv less p] close_tag p s show ?thesis
      by (auto simp: splitStep_def split: option.splits prod.splits)
  next
    case other
    with inv s show ?thesis
      by (auto simp: splitStep_def blocksStartClean_def)
  qed
qed

lemma splitReach_clean: "splitReach h i st \<Longrightarrow> blocksStartClean h i st"
proof (induction rule: splitReach.induct)
  case start
  show ?case
    by (simp add: blocksStartClean_def initSplit_def)
next
  case (step i st st' i')
  then show ?case
    by (auto intro: clean_step)
qed

lemma someOutput_start_tag:
  assumes "someOutput st" and "processStartTag h i st = (r, st')"
  shows "someOutput (case r of None \<Rightarrow> st' | Some (cbs, nextIndex) \<Rightarrow> st'\<lparr>currentBlockStart := cbs\<rparr>)"
  using assms
  by (auto simp: someOutput_def processStartTag_def handleSelfClosingBlock_def
      handleNonSelfClosingBlock_def Let_def split: option.splits prod.splits if_splits)

lemma someOutput_close_tag:
  assumes "someOutput st" and "processCloseTag h i st = (r, st')"
  shows "someOutput (case r of None \<Rightarrow> st' | Some cbs \<Rightarrow> st'\<lparr>currentBlockStart := cbs\<rparr>)"
  using assms
  by (auto simp: someOutput_def processCloseTag_def Let_def split: option.splits prod.splits if_splits)

lemma someOutput_step:
  assumes "someOutput st" and "splitStep h i st = (st', i')"
  shows "someOutput st'"
proof -
  consider (open_tag) "charAt h i = Some 60 \<and> charAt h (i + 1) \<noteq> Some 47 \<and> charAt h (i + 1) \<noteq> Some 33"
    | (close_tag) "charAt h i = Some 60 \<and> charAt h (i + 1) = Some 47"
    | (other) "\<not> (charAt h i = Some 60 \<and> charAt h (i + 1) \<noteq> Some 47 \<and> charAt h (i + 1) \<noteq> Some 33)"
        "\<not> (charAt h i = Some 60 \<and> charAt h (i + 1) = Some 47)"
    by blast
  then show ?thesis
  proof cases
    case open_tag
    obtain r st1 where p: "processStartTag h i st = (r, st1)"
      by (cases "processStartTag h i st")
    from someOutput_start_tag [OF assms(1) p] open_tag p assms(2) show ?thesis
      by (auto simp: splitStep_def split: option.splits prod.splits)
  next
    case close_tag
    obtain r st1 where p: "processCloseTag h i st = (r, st1)"
      by (cases "processCloseTag h i st")
    from someOutput_close_tag [OF assms(1) p] close_tag p assms(2) show ?thesis
      by (auto simp: splitStep_def split: option.splits prod.splits)
  next
    case other
    with assms show ?thesis
      by (auto simp: splitStep_def)
  qed
qed

lemma someOutput_loop: "someOutput st \<Longrightarrow> someOutput (splitLoop h i st)"
proof (induction h i st rule: splitLoop.induct)
  case (1 h i st)
  show ?case
  proof (cases "i < length h")
    case True
    obtain st' i' where s: "splitStep h i st = (st', i')"
      by (cases "splitStep h i st")
    with 1 True have "someOutput (splitLoop h i' st')"
      by (auto intro: someOutput_step)
    with True s show ?thesis
      by (subst splitLoop.simps) simp
  next
    case False
    with 1 show ?thesis
      by (subst splitLoop.simps) simp
  qed
qed

lemma splitLoop_skip:
  assumes "60 \<notin> set (take n (drop i h))" and "i + n \<le> length h"
  shows "splitLoop h i st = splitLoop h (i + n) st"
  using assms
proof (induction n arbitrary: i)
  case 0
  show ?case by simp
next
  case (Suc n)
  then have less: "i < length h"
    by simp
  with Suc.prems have "h ! i \<noteq> 60" and rest: "60 \<notin> set (take n (drop (Suc i) h))"
    by (auto simp: take_Suc hd_drop_conv_nth drop_Suc tl_drop)
  with less have "splitStep h i st = (st, i + 1)"
    by (simp add: splitStep_def charAt_def)
  with less have "splitLoop h i st = splitLoop h (Suc i) st"
    by (subst splitLoop.simps) simp
  also from Suc.prems rest have "\<dots> = splitLoop h (Suc i + n) st"
    by (intro Suc.IH) simp_all
  finally show ?case by simp
qed

lemma isWs_not_isWord: "isWs c \<Longrightarrow> \<not> isWord c"
  by (auto simp: isWs_def isWord_def isDigit_def)

lemma paragraph_startTagMatch:
  assumes "openTagAt False [js ''p''] x"
  shows "\<exists>l. startTagMatch (x @ w) = Some (js ''p'', l)"
proof -
  from assms have two: "take 2 x = js ''<p''" and rest: "tagRest (drop 2 x)"
    by (simp_all add: openTagAt_def startsWith_def numeral_2_eq_2)
  from rest obtain c r where r: "drop 2 x = c # r" and c: "c = 62 \<or> (isWs c \<and> 62 \<in> set r)"
    by (auto simp: tagRest_def split: list.splits)
  have "x = take 2 x @ drop 2 x"
    by simp
  with two r have x: "x = 60 # 112 # c # r"
    by simp
  from c have nw: "\<not> isWord c"
  proof
    assume "c = 62"
    then show ?thesis by (simp add: isWord_def isDigit_def)
  next
    assume "isWs c \<and> 62 \<in> set r"
    then show ?thesis by (simp add: isWs_not_isWord)
  qed
  have p: "isWord 112"
    by (simp add: isWord_def)
  from c nw p show ?thesis
    unfolding x by (auto simp: startTagMatch_def Let_def)
qed

lemma append_parts:
  assumes "h = a @ b"
  shows "take (length a) h = a" and "drop (length a) h = b" and "length h = length a + length b"
  using assms by simp_all

lemma paragraph_some_output:
  assumes para: "isParagraphBlock h"
  shows "someOutput (splitLoop h 0 initSplit)"
proof -
  obtain wl wr where h: "h = wl @ trim h @ wr" and wl: "\<forall>c \<in> set wl. isWs c"
    using trim_decomp [of h] by blast
  let ?n = "length wl"
  from para have open_tag: "openTagAt False [js ''p''] (trim h)"
    by (simp add: isParagraphBlock_def)
  then have "take 2 (trim h) = js ''<p''"
    by (simp add: openTagAt_def startsWith_def numeral_2_eq_2)
  then obtain r where tr: "trim h = 60 # 112 # r"
    by (cases "trim h"; cases "tl (trim h)") auto
  note parts = append_parts [OF h]
  from parts(2) have d: "drop ?n h = trim h @ wr" .
  from parts(1) have t: "take ?n (drop 0 h) = wl"
    by simp
  from parts(3) have len: "length h = length wl + length (trim h) + length wr"
    by simp
  with tr have less: "?n < length h" and less1: "Suc ?n < length h"
    by simp_all
  from t wl have "60 \<notin> set (take ?n (drop 0 h))"
    by (auto simp: isWs_def)
  then have "splitLoop h 0 initSplit = splitLoop h (0 + ?n) initSplit"
    using less by (intro splitLoop_skip) simp_all
  also obtain st' i' where s: "splitStep h ?n initSplit = (st', i')"
    by (cases "splitStep h ?n initSplit")
  with less have "splitLoop h (0 + ?n) initSplit = splitLoop h i' st'"
    by (subst splitLoop.simps) simp
  finally have loop: "splitLoop h 0 initSplit = splitLoop h i' st'" .
  from open_tag obtain l where m: "startTagMatch (drop ?n h) = Some (js ''p'', l)"
    unfolding d using paragraph_startTagMatch by blast
  have "h ! ?n = hd (drop ?n h)"
    using less by (simp add: hd_drop_conv_nth)
  with d tr less have c0: "charAt h ?n = Some 60"
    by (simp add: charAt_def)
  have "h ! Suc ?n = hd (drop (Suc ?n) h)"
    using less1 by (simp add: hd_drop_conv_nth)
  also have "drop (Suc ?n) h = tl (drop ?n h)"
    by (simp add: drop_Suc tl_drop)
  finally have "h ! Suc ?n = 112"
    by (simp add: d tr)
  with less1 have c1: "charAt h (?n + 1) = Some 112"
    by (simp add: charAt_def)
  have top: "toLowerCase (js ''p'') \<in> set topLevelBlockElements"
    by (simp add: topLevelBlockElements_def toLowerCase_def lowerChar_def)
  from m top obtain res st1 where p: "processStartTag h ?n initSplit = (Some res, st1)"
      and out: "fst res = -1 \<longrightarrow> blocks st1 \<noteq> []" "fst res = -1 \<or> 0 \<le> fst res"
    by (cases "take 2 (drop (l - 2) (take l (drop ?n h))) = js ''/>''
               \<or> isSelfClosingTag (toLowerCase (js ''p''))")
       (simp_all add: processStartTag_def handleSelfClosingBlock_def
          handleNonSelfClosingBlock_def Let_def)
  obtain cbs nxt where res: "res = (cbs, nxt)"
    by (cases res)
  from s c0 c1 p res have "st' = st1\<lparr>currentBlockStart := cbs\<rparr>"
    by (simp add: splitStep_def)
  with out res have "someOutput st'"
    by (auto simp: someOutput_def)
  then show ?thesis
    unfolding loop by (rule someOutput_loop)
qed

lemma split_blocks_start_clean:
  assumes "b \<in> set (splitIntoCompleteBlocks h)" and "isParagraphBlock b"
  shows "b \<noteq> [] \<and> \<not> isWs (hd b)"
proof -
  let ?st = "splitLoop h 0 initSplit"
  from splitLoop_reach [OF splitReach.start, of h]
  obtain j where "splitReach h j ?st"
    by blast
  then have inv: "blocksStartClean h j ?st"
    by (rule splitReach_clean)
  then have cl: "\<forall>x \<in> set (blocks ?st). x \<noteq> [] \<and> \<not> isWs (hd x)"
    by (simp add: blocksStartClean_def list_all_iff)
  from inv have "0 \<le> currentBlockStart ?st \<Longrightarrow> nat (currentBlockStart ?st) < length h"
    by (simp add: blocksStartClean_def)
  then have inside: "0 \<le> currentBlockStart ?st \<Longrightarrow> currentBlockStart ?st < int (length h)"
    by (simp add: nat_less_iff)
  from assms(1) have b: "b \<in> set (processLastBlock h (currentBlockStart ?st) (blocks ?st))"
    by (auto simp: splitIntoCompleteBlocks_def Let_def split: if_splits)
  show ?thesis
  proof (cases "b \<in> set (blocks ?st)")
    case True
    with cl show ?thesis by blast
  next
    case False
    show ?thesis
    proof (cases "0 \<le> currentBlockStart ?st")
      case True
      with inside b False
      have "b = trim (substringFrom h (currentBlockStart ?st))" and "b \<noteq> []"
        by (auto simp: processLastBlock_def Let_def split: if_splits)
      then show ?thesis
        using trim_hd by auto
    next
      case neg: False
      with b False have "b = h" and "blocks ?st = []"
        by (auto simp: processLastBlock_def Let_def split: if_splits)
      with neg assms(2) paragraph_some_output [of h] show ?thesis
        by (simp add: someOutput_def)
    qed
  qed
qed

lemma split_paragraph_starts_with_tag:
  assumes "b \<in> set (splitIntoCompleteBlocks h)" and "isParagraphBlock b"
  shows "take 2 b = js ''<p''"
proof -
  from assms have clean: "b \<noteq> [] \<and> \<not> isWs (hd b)"
    by (rule split_blocks_start_clean)
  obtain wl wr where b: "b = wl @ trim b @ wr" and wl: "\<forall>c \<in> set wl. isWs c"
    using trim_decomp [of b] by blast
  from assms(2) have "take 2 (trim b) = js ''<p''"
    by (simp add: isParagraphBlock_def openTagAt_def startsWith_def numeral_2_eq_2)
  then obtain r where tr: "trim b = 60 # 112 # r"
    by (cases "trim b"; cases "tl (trim b)") auto
  have "wl = []"
  proof (cases wl)
    case Nil
    then show ?thesis .
  next
    case (Cons c w)
    with b have "hd b = c"
      by (metis append_Cons list.sel(1))
    with Cons wl clean show ?thesis
      by simp
  qed
  with b tr have "b = 60 # 112 # (r @ wr)"
    by simp
  then have "take 2 b = take 2 (60 # 112 # (r @ wr))"
    by (rule arg_cong)
  then show ?thesis
    by (simp add: numeral_2_eq_2)
qed

section \<open>The paragraph rule\<close>

text \<open>
  Claim C4. Let \<open>L\<close> be the html of the last stored block and \<open>b\<close> the new block. The paragraph
  branch of the merge is taken (\<open>shouldMergeBlocks\<close> holds, the image guard lets the merge
  through, and \<open>mergeBlocks\<close> applies its paragraph rule) if and only if \<open>L\<close> and \<open>b\<close> are
  paragraph blocks, the trimmed text of \<open>L\<close> without its tags does not end in a sentence mark,
  and \<open>L\<close> contains no image. Then the last block gets the html of \<open>L\<close> without its closing
  tag, followed by \<open>b\<close> without its opening and closing tags, followed by one closing tag.
  When both are paragraph blocks and \<open>L\<close> ends in a mark or contains an image, \<open>b\<close> is pushed
  as a new block. When they are not both paragraph blocks, a merge is one of the list, table
  or blockquote rules. For spans \<open><p attrs>inner</p>\<close> the merged html is the opening tag of
  \<open>L\<close>, the two inner contents and one closing tag. A paragraph block that comes out of
  \<open>splitIntoCompleteBlocks\<close> starts with \<open><p\<close>, with no white space before it.
\<close>

theorem paragraph_merge_rule:
  assumes stored: "renderBlocks s \<noteq> []" and L: "L = html (last (renderBlocks s))"
  shows "((shouldMergeBlocks L b \<and> \<not> containsImage L \<and> isParagraphBlock L \<and> isParagraphBlock b)
            \<longleftrightarrow> (isParagraphBlock L \<and> isParagraphBlock b
                  \<and> \<not> (trim (stripTags L) \<noteq> [] \<and> last (trim (stripTags L)) \<in> set sentenceMarks)
                  \<and> \<not> containsImage L))
       \<and> (isParagraphBlock L \<and> isParagraphBlock b
            \<and> \<not> (trim (stripTags L) \<noteq> [] \<and> last (trim (stripTags L)) \<in> set sentenceMarks)
            \<and> \<not> containsImage L \<longrightarrow>
            appendBlock s b =
              s\<lparr>renderBlocks := butlast (renderBlocks s) @
                  [(last (renderBlocks s))\<lparr>html :=
                     stripCloseEnd False (js ''p'') L
                     @ stripCloseEnd False (js ''p'') (stripOpenStart False (js ''p'') b)
                     @ js ''</p>''\<rparr>]\<rparr>)
       \<and> (isParagraphBlock L \<and> isParagraphBlock b
            \<and> ((trim (stripTags L) \<noteq> [] \<and> last (trim (stripTags L)) \<in> set sentenceMarks)
                \<or> containsImage L) \<longrightarrow>
            appendBlock s b = pushBlock s b)
       \<and> (\<not> (isParagraphBlock L \<and> isParagraphBlock b) \<longrightarrow>
            (\<forall>m. mergeBlocks (last (renderBlocks s)) b = Some m \<longrightarrow>
               isIncompleteList L \<or> isIncompleteTable L \<or> isIncompleteBlockquote L))
       \<and> (\<forall>wl attrsL innerL wr attrsB innerB wB.
            L = wl @ pSpan attrsL innerL @ wr \<and> b = pSpan attrsB innerB @ wB
            \<and> allWs wl \<and> allWs wr \<and> allWs wB \<and> attrsOk attrsL \<and> attrsOk attrsB \<longrightarrow>
            isParagraphBlock L \<and> isParagraphBlock b
            \<and> stripCloseEnd False (js ''p'') L
              @ stripCloseEnd False (js ''p'') (stripOpenStart False (js ''p'') b)
              @ js ''</p>''
              = wl @ pSpan attrsL (innerL @ innerB))
       \<and> (\<forall>h. b \<in> set (splitIntoCompleteBlocks h) \<and> isParagraphBlock b \<longrightarrow>
            take 2 b = js ''<p'')"
proof (intro conjI impI allI)
  show "(shouldMergeBlocks L b \<and> \<not> containsImage L \<and> isParagraphBlock L \<and> isParagraphBlock b)
            \<longleftrightarrow> (isParagraphBlock L \<and> isParagraphBlock b
                  \<and> \<not> (trim (stripTags L) \<noteq> [] \<and> last (trim (stripTags L)) \<in> set sentenceMarks)
                  \<and> \<not> containsImage L)"
    using shouldMerge_paragraphs [of L b] by blast
next
  assume c: "isParagraphBlock L \<and> isParagraphBlock b
            \<and> \<not> (trim (stripTags L) \<noteq> [] \<and> last (trim (stripTags L)) \<in> set sentenceMarks)
            \<and> \<not> containsImage L"
  then have "shouldMergeBlocks L b" and "\<not> containsImage L" and "trim b \<noteq> []"
    using shouldMerge_paragraphs [of L b] paragraph_not_blank [of b] by blast+
  with c stored L show "appendBlock s b =
              s\<lparr>renderBlocks := butlast (renderBlocks s) @
                  [(last (renderBlocks s))\<lparr>html :=
                     stripCloseEnd False (js ''p'') L
                     @ stripCloseEnd False (js ''p'') (stripOpenStart False (js ''p'') b)
                     @ js ''</p>''\<rparr>]\<rparr>"
    by (simp add: appendBlock_def mergeBlocks_def)
next
  assume c: "isParagraphBlock L \<and> isParagraphBlock b
            \<and> ((trim (stripTags L) \<noteq> [] \<and> last (trim (stripTags L)) \<in> set sentenceMarks)
                \<or> containsImage L)"
  then have "\<not> shouldMergeBlocks L b \<or> containsImage L" and "trim b \<noteq> []"
    using shouldMerge_paragraphs [of L b] paragraph_not_blank [of b] by blast+
  with L show "appendBlock s b = pushBlock s b"
    by (auto simp: appendBlock_def)
next
  fix m
  assume "\<not> (isParagraphBlock L \<and> isParagraphBlock b)"
    and "mergeBlocks (last (renderBlocks s)) b = Some m"
  with L show "isIncompleteList L \<or> isIncompleteTable L \<or> isIncompleteBlockquote L"
    by (auto simp: mergeBlocks_def Let_def split: if_splits)
next
  fix wl attrsL innerL wr attrsB innerB wB
  assume d: "L = wl @ pSpan attrsL innerL @ wr \<and> b = pSpan attrsB innerB @ wB
            \<and> allWs wl \<and> allWs wr \<and> allWs wB \<and> attrsOk attrsL \<and> attrsOk attrsB"
  then show "isParagraphBlock L"
    by (simp add: isParagraphBlock_pSpan)
  from d have "isParagraphBlock ([] @ pSpan attrsB innerB @ wB)"
    by (intro isParagraphBlock_pSpan) (simp_all add: allWs_def)
  with d show "isParagraphBlock b"
    by simp
  from d show "stripCloseEnd False (js ''p'') L
              @ stripCloseEnd False (js ''p'') (stripOpenStart False (js ''p'') b)
              @ js ''</p>''
              = wl @ pSpan attrsL (innerL @ innerB)"
    using merged_pSpan [of wr wB attrsB wl attrsL innerL innerB] by simp
next
  fix h
  assume "b \<in> set (splitIntoCompleteBlocks h) \<and> isParagraphBlock b"
  then have "b \<in> set (splitIntoCompleteBlocks h)" and "isParagraphBlock b"
    by blast+
  then show "take 2 b = js ''<p''"
    by (rule split_paragraph_starts_with_tag)
qed

theorem paragraph_merge_rule_witness:
  "renderBlocks helloStore \<noteq> []
   \<and> js ''<p>Hello</p>'' = html (last (renderBlocks helloStore))
   \<and> js ''<p>Hello</p>'' = [] @ pSpan [] (js ''Hello'') @ []
   \<and> js ''<p id=x>world</p>'' = pSpan (js '' id=x'') (js ''world'') @ []
   \<and> allWs [] \<and> attrsOk [] \<and> attrsOk (js '' id=x'')
   \<and> isParagraphBlock (js ''<p>Hello</p>'')
   \<and> isParagraphBlock (js ''<p id=x>world</p>'')
   \<and> \<not> (trim (stripTags (js ''<p>Hello</p>'')) \<noteq> []
          \<and> last (trim (stripTags (js ''<p>Hello</p>''))) \<in> set sentenceMarks)
   \<and> \<not> containsImage (js ''<p>Hello</p>'')
   \<and> js ''<p id=x>world</p>'' \<in> set (splitIntoCompleteBlocks (js '' <p id=x>world</p>''))
   \<and> take 2 (js ''<p id=x>world</p>'') = js ''<p''
   \<and> appendBlock helloStore (js ''<p id=x>world</p>'')
       = \<lparr>renderBlocks = [\<lparr>id_blk = mdBlockId 0, html = js ''<p>Helloworld</p>''\<rparr>],
          processedLength = 0, blockCounter = 1, accumulatedMarkdown = []\<rparr>"
proof -
  have stored: "renderBlocks helloStore \<noteq> []"
    and L: "js ''<p>Hello</p>'' = html (last (renderBlocks helloStore))"
    by (simp_all add: helloStore_def)
  have spans: "js ''<p>Hello</p>'' = [] @ pSpan [] (js ''Hello'') @ []"
      "js ''<p id=x>world</p>'' = pSpan (js '' id=x'') (js ''world'') @ []"
    by (simp_all add: pSpan_def)
  have ok: "allWs []" "attrsOk []" "attrsOk (js '' id=x'')"
    by (simp_all add: allWs_def attrsOk_def isWs_def)
  have nomark: "\<not> (trim (stripTags (js ''<p>Hello</p>'')) \<noteq> []
          \<and> last (trim (stripTags (js ''<p>Hello</p>''))) \<in> set sentenceMarks)"
    by (simp add: string_defs sentenceMarks_def)
  have noimg: "\<not> containsImage (js ''<p>Hello</p>'')"
    by (simp add: containsImage_def html_defs string_defs)
  note rule = paragraph_merge_rule [OF stored L, of "js ''<p id=x>world</p>''"]
  from rule spans ok
  have paras: "isParagraphBlock (js ''<p>Hello</p>'')" "isParagraphBlock (js ''<p id=x>world</p>'')"
    and merged: "stripCloseEnd False (js ''p'') (js ''<p>Hello</p>'')
              @ stripCloseEnd False (js ''p'') (stripOpenStart False (js ''p'') (js ''<p id=x>world</p>''))
              @ js ''</p>''
              = [] @ pSpan [] (js ''Hello'' @ js ''world'')"
    by blast+
  have "splitIntoCompleteBlocks (js '' <p id=x>world</p>'') = [js ''<p id=x>world</p>'']"
    by (simp add: split_defs string_defs)
  then have mem: "js ''<p id=x>world</p>'' \<in> set (splitIntoCompleteBlocks (js '' <p id=x>world</p>''))"
    by simp
  from rule paras mem have starts: "take 2 (js ''<p id=x>world</p>'') = js ''<p''"
    by blast
  from rule paras nomark noimg
  have "appendBlock helloStore (js ''<p id=x>world</p>'') =
      helloStore\<lparr>renderBlocks := butlast (renderBlocks helloStore) @
          [(last (renderBlocks helloStore))\<lparr>html :=
             stripCloseEnd False (js ''p'') (js ''<p>Hello</p>'')
             @ stripCloseEnd False (js ''p'') (stripOpenStart False (js ''p'') (js ''<p id=x>world</p>''))
             @ js ''</p>''\<rparr>]\<rparr>"
    by blast
  then have "appendBlock helloStore (js ''<p id=x>world</p>'')
       = \<lparr>renderBlocks = [\<lparr>id_blk = mdBlockId 0, html = js ''<p>Helloworld</p>''\<rparr>],
          processedLength = 0, blockCounter = 1, accumulatedMarkdown = []\<rparr>"
    unfolding merged by (simp add: helloStore_def pSpan_def)
  with stored L spans ok paras nomark noimg mem starts show ?thesis
    by (intro conjI)
qed

end
